theory Spec2Isabelle
  imports Main "HOL-Library.Sublist" "HOL-Library.Multiset"
begin

chapter \<open>The kanban task manager: store, reducer, hydration and drag coordination\<close>

text \<open>
  A shallow embedding of the state core of the kanban task manager: the drag identifier
  codec (\<^verbatim>\<open>boardDndUtils.ts\<close>), the drop handler of \<^verbatim>\<open>BoardView.tsx\<close>, the id
  compatibility pass of \<^verbatim>\<open>services/boards.ts\<close>, the store of \<^verbatim>\<open>useStore.ts\<close>, the
  busy-key timers of \<^verbatim>\<open>UiContext.tsx\<close> and the hydration effect of
  \<^verbatim>\<open>StoreHydration.tsx\<close>. The reducer \<^verbatim>\<open>utils/boardsReducer.ts\<close> is not part of the
  sources at hand; it is modelled from the specification and marked as such.
\<close>

section \<open>JavaScript values\<close>

text \<open>
  The numbers that occur are board indices and list positions: integers, and the \<open>NaN\<close>
  that \<^verbatim>\<open>parseInt\<close> returns. A number value is a double: \<open>Num i\<close> stands for the double
  nearest to the integer \<open>i\<close>, which is \<open>i\<close> itself in the safe range \<open>\<bar>i\<bar> < 2^53\<close>. The
  conversion of a number to a string rounds accordingly; the value that \<^verbatim>\<open>parseInt\<close>
  reads is kept exact (its rounding beyond \<open>2^53\<close> is outside the model). Strings are
  lists of characters; a character stands for a UTF-16 code unit below 256.
\<close>

datatype jsnum = NaN | Num int

text \<open>Strict equality \<^verbatim>\<open>===\<close> on numbers: \<open>NaN\<close> equals nothing, not even itself.\<close>

fun js_strict_eq :: "jsnum \<Rightarrow> jsnum \<Rightarrow> bool" where
  "js_strict_eq (Num a) (Num b) = (a = b)"
| "js_strict_eq _ _ = False"

definition digit_char :: "nat \<Rightarrow> char" where
  "digit_char d = (''0123456789'' ! d)"

definition digit_val :: "char \<Rightarrow> nat option" where
  "digit_val =
     map_of [(CHR ''0'', 0), (CHR ''1'', 1), (CHR ''2'', 2), (CHR ''3'', 3), (CHR ''4'', 4),
             (CHR ''5'', 5), (CHR ''6'', 6), (CHR ''7'', 7), (CHR ''8'', 8), (CHR ''9'', 9)]"

definition is_digit :: "char \<Rightarrow> bool" where
  "is_digit c = (digit_val c \<noteq> None)"

definition digit_num :: "char \<Rightarrow> nat" where
  "digit_num c = (case digit_val c of Some d \<Rightarrow> d | None \<Rightarrow> 0)"

text \<open>The decimal digits of a natural number, most significant first.\<close>

fun digits_of :: "nat \<Rightarrow> string" where
  "digits_of n =
     (if n < 10 then [digit_char n] else digits_of (n div 10) @ [digit_char (n mod 10)])"

declare digits_of.simps [simp del]

definition digits_value :: "string \<Rightarrow> nat" where
  "digits_value ds = foldl (\<lambda>acc c. 10 * acc + digit_num c) 0 ds"

text \<open>
  The double nearest to a natural number: the number is cut to its 53 leading bits and
  rounded to nearest, ties to the even significand.
\<close>

fun bit_length :: "nat \<Rightarrow> nat" where
  "bit_length n = (if n = 0 then 0 else Suc (bit_length (n div 2)))"

declare bit_length.simps [simp del]

definition round_to_double :: "nat \<Rightarrow> nat" where
  "round_to_double x =
     (let b = bit_length x in
      if b \<le> 53 then x
      else
        let sh = b - 53; q = x div 2 ^ sh; r = x mod 2 ^ sh; h = 2 ^ (sh - 1) in
        (if h < r \<or> (r = h \<and> odd q) then q + 1 else q) * 2 ^ sh)"

text \<open>
  The conversion of a number inside a template literal, \<^verbatim>\<open>`${n}`\<close>, is the language's
  \<^verbatim>\<open>Number::toString\<close>. It prints the decimal with the fewest significant digits that
  still denotes the double \<open>x\<close>: for \<open>k = 1, 2, \<dots>\<close> the two multiples of the power of ten
  that leaves \<open>k\<close> significant digits, below and above \<open>x\<close>, are tried, the closer one first
  (on a tie the one with the even digit string); seventeen digits always suffice. A
  decimal below \<open>10^21\<close> is written out in full, a larger one in exponent form
  (\<^verbatim>\<open>1e+21\<close>, \<^verbatim>\<open>1.5e+21\<close>); a magnitude that rounds beyond the largest double prints
  \<^verbatim>\<open>Infinity\<close>.
\<close>

definition candidates :: "nat \<Rightarrow> nat \<Rightarrow> nat list" where
  "candidates x k =
     (let p = 10 ^ (length (digits_of x) - k); lo = x div p * p; hi = lo + p in
      filter (\<lambda>v. round_to_double v = x)
        (if x - lo < hi - x \<or> (x - lo = hi - x \<and> even (x div p)) then [lo, hi]
         else [hi, lo]))"

definition shortest_decimal :: "nat \<Rightarrow> nat" where
  "shortest_decimal x =
     (case concat (map (candidates x) [1..<18]) of [] \<Rightarrow> x | v # _ \<Rightarrow> v)"

definition strip_zeros :: "string \<Rightarrow> string" where
  "strip_zeros ds = rev (dropWhile (\<lambda>c. c = CHR ''0'') (rev ds))"

definition magnitude_to_string :: "nat \<Rightarrow> string" where
  "magnitude_to_string v =
     (if v < 10 ^ 21 then digits_of v
      else
        (case strip_zeros (digits_of v) of
           [] \<Rightarrow> digits_of v
         | d # rest \<Rightarrow>
             d # (if rest = [] then [] else CHR ''.'' # rest) @ ''e+'' @
               digits_of (length (digits_of v) - 1)))"

fun number_to_string :: "jsnum \<Rightarrow> string" where
  "number_to_string NaN = ''NaN''"
| "number_to_string (Num i) =
     (let x = round_to_double (nat \<bar>i\<bar>); sign = (if i < 0 then ''-'' else '''') in
      if 2 ^ 1024 \<le> x then sign @ ''Infinity''
      else sign @ magnitude_to_string (shortest_decimal x))"

declare number_to_string.simps [simp del]

text \<open>
  The white space that \<^verbatim>\<open>parseInt\<close> and \<^verbatim>\<open>trim\<close> skip, among the code units below
  256: tab, line feed, vertical tab, form feed, carriage return, space, no-break space.
\<close>

definition is_ws :: "char \<Rightarrow> bool" where
  "is_ws c =
     (c \<in> set [CHR 0x09, CHR 0x0A, CHR 0x0B, CHR 0x0C, CHR 0x0D, CHR 0x20, CHR 0xA0])"

fun strip_sign :: "string \<Rightarrow> bool \<times> string" where
  "strip_sign [] = (False, [])"
| "strip_sign (c # cs) =
     (if c = CHR ''-'' then (True, cs)
      else if c = CHR ''+'' then (False, cs)
      else (False, c # cs))"

text \<open>
  \<^verbatim>\<open>parseInt(s, 10)\<close>: skip leading white space, read one optional sign, then the longest
  run of decimal digits; whatever follows is ignored, and no digit at all gives \<open>NaN\<close>.
\<close>

definition leading_digits :: "string \<Rightarrow> string" where
  "leading_digits s = takeWhile is_digit (snd (strip_sign (dropWhile is_ws s)))"

definition parseInt :: "string \<Rightarrow> jsnum" where
  "parseInt s =
     (let ds = leading_digits s in
      if ds = [] then NaN
      else if fst (strip_sign (dropWhile is_ws s)) then Num (- int (digits_value ds))
      else Num (int (digits_value ds)))"

text \<open>
  \<^verbatim>\<open>String.prototype.split\<close> with a non-empty separator: the separator is searched from
  left to right, occurrences do not overlap, and the pieces between them are returned
  (so the empty string gives one empty piece).
\<close>

function js_split :: "string \<Rightarrow> string \<Rightarrow> string list" where
  "js_split sep [] = [[]]"
| "js_split sep (c # cs) =
     (if sep \<noteq> [] \<and> prefix sep (c # cs)
      then [] # js_split sep (drop (length sep) (c # cs))
      else (case js_split sep cs of [] \<Rightarrow> [[c]] | p # ps \<Rightarrow> (c # p) # ps))"
  by pat_completeness auto
termination
  by (relation "measure (\<lambda>(sep, s). length s)") auto

text \<open>\<^verbatim>\<open>Array.prototype.join\<close> and \<^verbatim>\<open>slice(n)\<close>.\<close>

fun js_join :: "string \<Rightarrow> string list \<Rightarrow> string" where
  "js_join sep [] = []"
| "js_join sep [p] = p"
| "js_join sep (p # q # ps) = p @ sep @ js_join sep (q # ps)"

definition slice_from :: "nat \<Rightarrow> 'a list \<Rightarrow> 'a list" where
  "slice_from n xs = drop n xs"

text \<open>\<^verbatim>\<open>Array.prototype.findIndex\<close>: the first position that satisfies \<open>P\<close>, or \<open>-1\<close>.\<close>

fun findIndex :: "('a \<Rightarrow> bool) \<Rightarrow> 'a list \<Rightarrow> int" where
  "findIndex P [] = - 1"
| "findIndex P (x # xs) =
     (if P x then 0 else (let i = findIndex P xs in if i = - 1 then - 1 else i + 1))"

section \<open>The data model (\<^verbatim>\<open>types.ts\<close>)\<close>

record Subtask =
  title_sub :: string
  isCompleted :: bool

record Task =
  id_task :: string
  title :: string
  description :: "string option"
  status :: "string option"
  subtasks :: "Subtask list option"

text \<open>\<^verbatim>\<open>RawTask\<close>: a task as the remote source delivers it, whose \<^verbatim>\<open>id\<close> may be missing.\<close>

record RawTask =
  id_raw :: "string option"
  title_raw :: string
  description_raw :: "string option"
  status_raw :: "string option"
  subtasks_raw :: "Subtask list option"

record Column =
  name :: string
  tasks :: "Task list"

record RawColumn =
  name_rawcol :: string
  tasks_raw :: "RawTask list"

record Board =
  name_board :: string
  columns :: "Column list"

record RawBoard =
  name_rawboard :: string
  columns_raw :: "RawColumn list"

record BoardsState =
  boards :: "Board list"

datatype BoardsAction =
    ADD_BOARD Board
  | UPDATE_BOARD jsnum Board
  | DELETE_BOARD jsnum
  | ADD_TASK jsnum string Task
  | UPDATE_TASK jsnum string string Task
  | DELETE_TASK jsnum string string
  | REORDER_TASK jsnum string jsnum jsnum
  | MOVE_TASK jsnum string string string
  | TOGGLE_SUBTASK jsnum string string string
  | SET_BOARDS "Board list"
  | ADD_COLUMN jsnum string

datatype toast_type = success | error | info

record UiToast =
  id_toast :: string
  type_toast :: toast_type
  message :: string

record User =
  id_user :: string
  name_user :: string
  email :: string

datatype theme_pref = light | dark

section \<open>Drag identifiers (\<^verbatim>\<open>boardDndUtils.ts\<close>)\<close>

record task_ref =
  boardIndex :: jsnum
  columnName :: string
  taskTitle :: string

record column_ref =
  cboardIndex :: jsnum
  ccolumnName :: string

definition encodeTaskId :: "jsnum \<Rightarrow> string \<Rightarrow> string \<Rightarrow> string" where
  "encodeTaskId bi col ttl = number_to_string bi @ ''::'' @ col @ ''::'' @ ttl"

definition decodeTaskId :: "string \<Rightarrow> task_ref option" where
  "decodeTaskId ident =
     (let parts = js_split ''::'' ident in
      if length parts < 3 then None
      else Some \<lparr>boardIndex = parseInt (parts ! 0), columnName = parts ! 1,
                 taskTitle = js_join ''::'' (slice_from 2 parts)\<rparr>)"

definition encodeColumnId :: "jsnum \<Rightarrow> string \<Rightarrow> string" where
  "encodeColumnId bi col = number_to_string bi @ ''::'' @ col"

definition decodeColumnId :: "string \<Rightarrow> column_ref option" where
  "decodeColumnId ident =
     (let parts = js_split ''::'' ident in
      if length parts < 2 then None
      else Some \<lparr>cboardIndex = parseInt (parts ! 0), ccolumnName = parts ! 1\<rparr>)"

text \<open>
  Vocabulary for the statements about the codec: a string contains the delimiter; the
  number of delimiter occurrences met by a left-to-right scan that resumes after each
  occurrence; a decimal numeral (an optional minus sign and at least one digit, nothing
  else), which is what \<open>number_to_string\<close> prints for an integer of the safe range.
\<close>

fun has_delim :: "string \<Rightarrow> bool" where
  "has_delim (c # d # cs) = ((c = CHR '':'' \<and> d = CHR '':'') \<or> has_delim (d # cs))"
| "has_delim _ = False"

fun count_delim :: "string \<Rightarrow> nat" where
  "count_delim (c # d # cs) =
     (if c = CHR '':'' \<and> d = CHR '':'' then Suc (count_delim cs) else count_delim (d # cs))"
| "count_delim _ = 0"

fun first_part :: "string \<Rightarrow> string" where
  "first_part (c # d # cs) =
     (if c = CHR '':'' \<and> d = CHR '':'' then [] else c # first_part (d # cs))"
| "first_part s = s"

definition is_numeral :: "string \<Rightarrow> bool" where
  "is_numeral s =
     (case s of
        [] \<Rightarrow> False
      | c # cs \<Rightarrow>
          if c = CHR ''-'' then cs \<noteq> [] \<and> list_all is_digit cs
          else list_all is_digit (c # cs))"

section \<open>The drop handler (\<^verbatim>\<open>BoardView.tsx\<close>, \<^verbatim>\<open>handleDragEnd\<close>)\<close>

text \<open>
  The handler's only effect is to call \<^verbatim>\<open>dispatch\<close>; it is modelled by the list of
  actions it dispatches, in order. The block that handles a drop on a task card either
  returns from the handler (\<open>Some\<close> of what it dispatched) or falls through to the
  column-level code (\<open>None\<close>).
\<close>

definition sameColumnDrop ::
  "jsnum \<Rightarrow> Board \<Rightarrow> task_ref \<Rightarrow> task_ref option \<Rightarrow> BoardsAction list option" where
  "sameColumnDrop bi board activeTask overTask =
     (case overTask of
        None \<Rightarrow> None
      | Some ot \<Rightarrow>
          if \<not> js_strict_eq (boardIndex ot) bi then None
          else
            (let fromColumn = columnName activeTask; draggedTitle = taskTitle activeTask;
                 toColumn = columnName ot; targetTitle = taskTitle ot in
             case (find (\<lambda>c. name c = fromColumn) (columns board),
                   find (\<lambda>c. name c = toColumn) (columns board)) of
               (Some fromCol, Some toCol) \<Rightarrow>
                 (let fromIndex = findIndex (\<lambda>task. title task = draggedTitle) (tasks fromCol);
                      toIndex = findIndex (\<lambda>task. title task = targetTitle) (tasks toCol) in
                  if fromIndex = - 1 \<or> toIndex = - 1 then Some []
                  else if fromColumn = toColumn then
                    (if fromIndex = toIndex then Some []
                     else Some [REORDER_TASK bi fromColumn (Num fromIndex) (Num toIndex)])
                  else None)
             | _ \<Rightarrow> Some []))"

definition handleDragEnd ::
  "jsnum option \<Rightarrow> Board option \<Rightarrow> string \<Rightarrow> string option \<Rightarrow> BoardsAction list" where
  "handleDragEnd currentIndex board activeId over =
     (case (currentIndex, over, board) of
        (Some bi, Some overId, Some b) \<Rightarrow>
          (case decodeTaskId activeId of
             None \<Rightarrow> []
           | Some activeTask \<Rightarrow>
               if \<not> js_strict_eq (boardIndex activeTask) bi then []
               else
                 (case sameColumnDrop bi b activeTask (decodeTaskId overId) of
                    Some dispatched \<Rightarrow> dispatched
                  | None \<Rightarrow>
                      (case decodeColumnId overId of
                         None \<Rightarrow> []
                       | Some columnData \<Rightarrow>
                           if \<not> js_strict_eq (cboardIndex columnData) bi then []
                           else if columnName activeTask = ccolumnName columnData then []
                           else [MOVE_TASK bi (columnName activeTask) (ccolumnName columnData)
                                   (taskTitle activeTask)])))
      | _ \<Rightarrow> [])"

text \<open>A title lookup resolves: the board has a column of that name holding such a task.\<close>

definition resolvable :: "Board \<Rightarrow> string \<Rightarrow> string \<Rightarrow> bool" where
  "resolvable b col t =
     (case find (\<lambda>c. name c = col) (columns b) of
        None \<Rightarrow> False
      | Some c \<Rightarrow> findIndex (\<lambda>x. title x = t) (tasks c) \<noteq> - 1)"

section \<open>The id compatibility pass (\<^verbatim>\<open>services/boards.ts\<close>)\<close>

text \<open>
  \<^verbatim>\<open>generateTaskId\<close> reads the clock and the random generator. The environment is an
  oracle \<open>env\<close> that gives, for the \<open>k\<close>-th call, the reading of \<^verbatim>\<open>Date.now()\<close> and the
  random suffix \<^verbatim>\<open>Math.random().toString(36).slice(2, 9)\<close>; the number of calls made so
  far is threaded through the three nested \<^verbatim>\<open>map\<close>s, which visit boards, columns and
  tasks from left to right.
\<close>

definition generateTaskId :: "int \<times> string \<Rightarrow> string" where
  "generateTaskId reading =
     ''task-'' @ number_to_string (Num (fst reading)) @ ''-'' @ snd reading"

fun map_counting :: "(nat \<Rightarrow> 'a \<Rightarrow> 'b \<times> nat) \<Rightarrow> nat \<Rightarrow> 'a list \<Rightarrow> 'b list \<times> nat" where
  "map_counting f k [] = ([], k)"
| "map_counting f k (x # xs) =
     (let (y, k') = f k x; (ys, k'') = map_counting f k' xs in (y # ys, k''))"

text \<open>\<^verbatim>\<open>id: task.id || generateTaskId()\<close>: a missing or empty id is falsy.\<close>

definition ensureTaskId :: "(nat \<Rightarrow> int \<times> string) \<Rightarrow> nat \<Rightarrow> RawTask \<Rightarrow> Task \<times> nat" where
  "ensureTaskId env k task =
     (case id_raw task of
        Some i \<Rightarrow>
          if i \<noteq> [] then
            (\<lparr>id_task = i, title = title_raw task, description = description_raw task,
              status = status_raw task, subtasks = subtasks_raw task\<rparr>, k)
          else
            (\<lparr>id_task = generateTaskId (env k), title = title_raw task,
              description = description_raw task, status = status_raw task,
              subtasks = subtasks_raw task\<rparr>, Suc k)
      | None \<Rightarrow>
          (\<lparr>id_task = generateTaskId (env k), title = title_raw task,
            description = description_raw task, status = status_raw task,
            subtasks = subtasks_raw task\<rparr>, Suc k))"

definition ensureColumnIds ::
  "(nat \<Rightarrow> int \<times> string) \<Rightarrow> nat \<Rightarrow> RawColumn \<Rightarrow> Column \<times> nat" where
  "ensureColumnIds env k column =
     (let (ts, k') = map_counting (ensureTaskId env) k (tasks_raw column)
      in (\<lparr>name = name_rawcol column, tasks = ts\<rparr>, k'))"

definition ensureBoardIds ::
  "(nat \<Rightarrow> int \<times> string) \<Rightarrow> nat \<Rightarrow> RawBoard \<Rightarrow> Board \<times> nat" where
  "ensureBoardIds env k board =
     (let (cs, k') = map_counting (ensureColumnIds env) k (columns_raw board)
      in (\<lparr>name_board = name_rawboard board, columns = cs\<rparr>, k'))"

definition ensureTaskIds :: "(nat \<Rightarrow> int \<times> string) \<Rightarrow> RawBoard list \<Rightarrow> Board list" where
  "ensureTaskIds env bs = fst (map_counting (ensureBoardIds env) 0 bs)"

text \<open>
  A \<^verbatim>\<open>Board[]\<close> is also a \<^verbatim>\<open>RawBoard[]\<close> (every id is present); this is the view under
  which the pass is applied to its own output.
\<close>

definition rawTask :: "Task \<Rightarrow> RawTask" where
  "rawTask t =
     \<lparr>id_raw = Some (id_task t), title_raw = title t, description_raw = description t,
      status_raw = status t, subtasks_raw = subtasks t\<rparr>"

definition rawColumn :: "Column \<Rightarrow> RawColumn" where
  "rawColumn c = \<lparr>name_rawcol = name c, tasks_raw = map rawTask (tasks c)\<rparr>"

definition rawBoard :: "Board \<Rightarrow> RawBoard" where
  "rawBoard b = \<lparr>name_rawboard = name_board b, columns_raw = map rawColumn (columns b)\<rparr>"

text \<open>
  What the pass may and may not change, position by position: every field but the id is
  kept, the id of the result is not empty, and an id that was present and not empty is
  kept.
\<close>

definition task_kept :: "RawTask \<Rightarrow> Task \<Rightarrow> bool" where
  "task_kept r t =
     (title t = title_raw r \<and> description t = description_raw r \<and> status t = status_raw r
      \<and> subtasks t = subtasks_raw r \<and> id_task t \<noteq> []
      \<and> (case id_raw r of Some i \<Rightarrow> i = [] \<or> id_task t = i | None \<Rightarrow> True))"

definition column_kept :: "RawColumn \<Rightarrow> Column \<Rightarrow> bool" where
  "column_kept r c = (name c = name_rawcol r \<and> list_all2 task_kept (tasks_raw r) (tasks c))"

definition board_kept :: "RawBoard \<Rightarrow> Board \<Rightarrow> bool" where
  "board_kept r b =
     (name_board b = name_rawboard r \<and> list_all2 column_kept (columns_raw r) (columns b))"

section \<open>The action reducer (\<^verbatim>\<open>utils/boardsReducer.ts\<close>)\<close>

text \<open>
  Modelled from the spec: the source of \<^verbatim>\<open>boardsReducer\<close> is missing (only its test file
  and its callers are at hand). An index names a position when it is an integer within the
  bounds of the list; every other number is a lookup miss.
\<close>

definition valid_index :: "'a list \<Rightarrow> jsnum \<Rightarrow> nat option" where
  "valid_index xs n =
     (case n of
        NaN \<Rightarrow> None
      | Num i \<Rightarrow> if 0 \<le> i \<and> i < int (length xs) then Some (nat i) else None)"

text \<open>
  Modelled from the spec: the source of \<^verbatim>\<open>boardsReducer\<close> is missing. Lookups by name or
  title take the first match; \<open>remove_first\<close> removes the first element that satisfies
  \<open>P\<close>, the spec's "remove first task matching title".
\<close>

fun remove_first :: "('a \<Rightarrow> bool) \<Rightarrow> 'a list \<Rightarrow> 'a list" where
  "remove_first P [] = []"
| "remove_first P (x # xs) = (if P x then xs else x # remove_first P xs)"

text \<open>
  Modelled from the spec: the source of \<^verbatim>\<open>boardsReducer\<close> is missing. The first element
  that satisfies \<open>P\<close> is replaced by \<open>y\<close>; the spec's "replace the task matching
  taskTitle".
\<close>

fun replace_first :: "('a \<Rightarrow> bool) \<Rightarrow> 'a \<Rightarrow> 'a list \<Rightarrow> 'a list" where
  "replace_first P y [] = []"
| "replace_first P y (x # xs) = (if P x then y # xs else x # replace_first P y xs)"

text \<open>
  Modelled from the spec: the source of \<^verbatim>\<open>boardsReducer\<close> is missing. The spec's "array
  splice-move semantics - remove at fromIndex, insert at toIndex in the resulting shorter
  array": \<open>splice_out i\<close> is \<^verbatim>\<open>splice(i, 1)\<close>, giving the removed elements and what is
  left.
\<close>

definition splice_out :: "nat \<Rightarrow> 'a list \<Rightarrow> 'a list \<times> 'a list" where
  "splice_out i xs = (take 1 (drop i xs), take i xs @ drop (Suc i) xs)"

text \<open>
  Modelled from the spec: the source of \<^verbatim>\<open>boardsReducer\<close> is missing. The insertion
  \<^verbatim>\<open>splice(i, 0, ...items)\<close>.
\<close>

definition splice_in :: "nat \<Rightarrow> 'a list \<Rightarrow> 'a list \<Rightarrow> 'a list" where
  "splice_in i items xs = take i xs @ items @ drop i xs"

text \<open>
  Modelled from the spec: the source of \<^verbatim>\<open>boardsReducer\<close> is missing. The move of
  \<open>REORDER_TASK\<close>: remove at \<open>fromIndex\<close>, insert at \<open>toIndex\<close> in the shorter list.
\<close>

definition splice_move :: "nat \<Rightarrow> nat \<Rightarrow> 'a list \<Rightarrow> 'a list" where
  "splice_move fromIndex toIndex xs =
     (let (moved, rest) = splice_out fromIndex xs in splice_in toIndex moved rest)"

text \<open>
  Modelled from the spec: the source of \<^verbatim>\<open>boardsReducer\<close> is missing. \<^verbatim>\<open>trim\<close> as used by
  the guard of \<^verbatim>\<open>ADD_COLUMN\<close> ("no-op if columnName is empty after trimming").
\<close>

definition js_trim :: "string \<Rightarrow> string" where
  "js_trim s = rev (dropWhile is_ws (rev (dropWhile is_ws s)))"

text \<open>
  Modelled from the spec: the source of \<^verbatim>\<open>boardsReducer\<close> is missing. The common shape
  of the actions that change one column: resolve the board by index and the column by
  exact name; a miss at either lookup, or in the change itself, is a no-op.
\<close>

definition on_column ::
  "BoardsState \<Rightarrow> jsnum \<Rightarrow> string \<Rightarrow> (Column \<Rightarrow> Column option) \<Rightarrow> BoardsState option" where
  "on_column st bi col change =
     (case valid_index (boards st) bi of
        None \<Rightarrow> None
      | Some k \<Rightarrow>
          (let b = boards st ! k in
           case find (\<lambda>c. name c = col) (columns b) of
             None \<Rightarrow> None
           | Some c \<Rightarrow>
               (case change c of
                  None \<Rightarrow> None
                | Some c' \<Rightarrow>
                    Some (st\<lparr>boards := (boards st)
                      [k := b\<lparr>columns := replace_first (\<lambda>c. name c = col) c' (columns b)\<rparr>]\<rparr>))))"

text \<open>
  Modelled from the spec: the source of \<^verbatim>\<open>boardsReducer\<close> is missing. One equation per
  action of section 4.1 of the specification. The result \<open>None\<close> stands for "the state is
  returned unchanged, by reference" (every no-op and lookup miss); \<open>Some\<close> carries a new
  state object.
\<close>

fun boardsReducer_step :: "BoardsState \<Rightarrow> BoardsAction \<Rightarrow> BoardsState option" where
  "boardsReducer_step st (ADD_BOARD b) = Some (st\<lparr>boards := boards st @ [b]\<rparr>)"
| "boardsReducer_step st (UPDATE_BOARD bi b) =
     (case valid_index (boards st) bi of
        None \<Rightarrow> None
      | Some k \<Rightarrow> Some (st\<lparr>boards := (boards st)[k := b]\<rparr>))"
| "boardsReducer_step st (DELETE_BOARD bi) =
     (case valid_index (boards st) bi of
        None \<Rightarrow> None
      | Some k \<Rightarrow> Some (st\<lparr>boards := take k (boards st) @ drop (Suc k) (boards st)\<rparr>))"
| "boardsReducer_step st (ADD_TASK bi col task) =
     on_column st bi col (\<lambda>c. Some (c\<lparr>tasks := tasks c @ [task]\<rparr>))"
| "boardsReducer_step st (UPDATE_TASK bi col ttl task) =
     on_column st bi col (\<lambda>c.
       case find (\<lambda>t. title t = ttl) (tasks c) of
         None \<Rightarrow> None
       | Some _ \<Rightarrow> Some (c\<lparr>tasks := replace_first (\<lambda>t. title t = ttl) task (tasks c)\<rparr>))"
| "boardsReducer_step st (DELETE_TASK bi col ttl) =
     on_column st bi col (\<lambda>c.
       case find (\<lambda>t. title t = ttl) (tasks c) of
         None \<Rightarrow> None
       | Some _ \<Rightarrow> Some (c\<lparr>tasks := remove_first (\<lambda>t. title t = ttl) (tasks c)\<rparr>))"
| "boardsReducer_step st (REORDER_TASK bi col fromIndex toIndex) =
     (if js_strict_eq fromIndex toIndex then None
      else on_column st bi col (\<lambda>c.
        case (valid_index (tasks c) fromIndex, valid_index (tasks c) toIndex) of
          (Some i, Some j) \<Rightarrow> Some (c\<lparr>tasks := splice_move i j (tasks c)\<rparr>)
        | _ \<Rightarrow> None))"
| "boardsReducer_step st (MOVE_TASK bi fromColumn toColumn ttl) =
     (if fromColumn = toColumn then None
      else
        (case valid_index (boards st) bi of
           None \<Rightarrow> None
         | Some k \<Rightarrow>
             (let b = boards st ! k in
              case find (\<lambda>c. name c = fromColumn) (columns b) of
                None \<Rightarrow> None
              | Some fromCol \<Rightarrow>
                  (case find (\<lambda>t. title t = ttl) (tasks fromCol) of
                     None \<Rightarrow> None
                   | Some task \<Rightarrow>
                       (case find (\<lambda>c. name c = toColumn) (columns b) of
                          None \<Rightarrow> None
                        | Some toCol \<Rightarrow>
                            (let moved = task\<lparr>status := Some toColumn\<rparr>;
                                 cols1 = replace_first (\<lambda>c. name c = fromColumn)
                                   (fromCol\<lparr>tasks :=
                                      remove_first (\<lambda>t. title t = ttl) (tasks fromCol)\<rparr>)
                                   (columns b);
                                 cols2 = replace_first (\<lambda>c. name c = toColumn)
                                   (toCol\<lparr>tasks := tasks toCol @ [moved]\<rparr>) cols1
                             in Some (st\<lparr>boards :=
                                  (boards st)[k := b\<lparr>columns := cols2\<rparr>]\<rparr>)))))))"
| "boardsReducer_step st (TOGGLE_SUBTASK bi col ttl sub) =
     on_column st bi col (\<lambda>c.
       case find (\<lambda>t. title t = ttl) (tasks c) of
         None \<Rightarrow> None
       | Some task \<Rightarrow>
           (case subtasks task of
              None \<Rightarrow> None
            | Some subs \<Rightarrow>
                (case find (\<lambda>s. title_sub s = sub) subs of
                   None \<Rightarrow> None
                 | Some s \<Rightarrow>
                     Some (c\<lparr>tasks := replace_first (\<lambda>t. title t = ttl)
                       (task\<lparr>subtasks := Some (replace_first (\<lambda>s. title_sub s = sub)
                          (s\<lparr>isCompleted := \<not> isCompleted s\<rparr>) subs)\<rparr>)
                       (tasks c)\<rparr>))))"
| "boardsReducer_step st (SET_BOARDS bs) = Some (st\<lparr>boards := bs\<rparr>)"
| "boardsReducer_step st (ADD_COLUMN bi col) =
     (if js_trim col = [] then None
      else
        (case valid_index (boards st) bi of
           None \<Rightarrow> None
         | Some k \<Rightarrow>
             (let b = boards st ! k in
              Some (st\<lparr>boards := (boards st)
                [k := b\<lparr>columns := columns b @ [\<lparr>name = col, tasks = []\<rparr>]\<rparr>]\<rparr>))))"

text \<open>
  Modelled from the spec: the source of \<^verbatim>\<open>boardsReducer\<close> is missing. The reducer itself,
  \<open>reduce(state, action) -> state\<close>.
\<close>

definition boardsReducer :: "BoardsState \<Rightarrow> BoardsAction \<Rightarrow> BoardsState" where
  "boardsReducer st action =
     (case boardsReducer_step st action of None \<Rightarrow> st | Some st' \<Rightarrow> st')"

text \<open>The number of tasks of a board, summed over its columns.\<close>

definition total_tasks :: "Board \<Rightarrow> nat" where
  "total_tasks b = sum_list (map (\<lambda>c. length (tasks c)) (columns b))"

section \<open>The central store (\<^verbatim>\<open>useStore.ts\<close>)\<close>

text \<open>
  \<^verbatim>\<open>AppStore = BoardsState & {theme, user, isLoggedIn, loadingKeys, toasts, ...}\<close>; the
  bound functions of the store are the calls below.
\<close>

record AppStore = BoardsState +
  theme :: theme_pref
  user :: "User option"
  isLoggedIn :: bool
  loadingKeys :: "string list"
  toasts :: "UiToast list"

datatype store_call =
    Dispatch BoardsAction
  | SetTheme theme_pref
  | Login User
  | Logout
  | AddLoadingKey string
  | RemoveLoadingKey string
  | AddToast UiToast
  | RemoveToast string

text \<open>
  What each call hands to the store's \<^verbatim>\<open>set\<close>. The store is created with the plain
  \<^verbatim>\<open>create\<close> of the state library, whose \<^verbatim>\<open>set\<close> computes the next state, and, unless
  that is the very object it started from (\<^verbatim>\<open>Object.is\<close>), installs the merged state and
  calls every listener registered with \<^verbatim>\<open>subscribe(listener)\<close>. The result \<open>None\<close> stands
  for "the same object": \<^verbatim>\<open>addLoadingKey\<close> of a key already present, and a dispatch for
  which the reducer returns its argument. The reducer is a parameter.
\<close>

fun store_set ::
  "(BoardsState \<Rightarrow> BoardsAction \<Rightarrow> BoardsState option) \<Rightarrow> store_call \<Rightarrow> AppStore
     \<Rightarrow> AppStore option" where
  "store_set reduce (Dispatch action) s =
     (case reduce \<lparr>boards = boards s\<rparr> action of
        None \<Rightarrow> None
      | Some st' \<Rightarrow> Some (s\<lparr>boards := boards st'\<rparr>))"
| "store_set reduce (SetTheme th) s = Some (s\<lparr>theme := th\<rparr>)"
| "store_set reduce (Login u) s = Some (s\<lparr>user := Some u, isLoggedIn := True\<rparr>)"
| "store_set reduce Logout s = Some (s\<lparr>user := None, isLoggedIn := False\<rparr>)"
| "store_set reduce (AddLoadingKey key) s =
     (if key \<in> set (loadingKeys s) then None
      else Some (s\<lparr>loadingKeys := loadingKeys s @ [key]\<rparr>))"
| "store_set reduce (RemoveLoadingKey key) s =
     Some (s\<lparr>loadingKeys := filter (\<lambda>k. k \<noteq> key) (loadingKeys s)\<rparr>)"
| "store_set reduce (AddToast toast) s = Some (s\<lparr>toasts := toasts s @ [toast]\<rparr>)"
| "store_set reduce (RemoveToast ident) s =
     Some (s\<lparr>toasts := filter (\<lambda>t. id_toast t \<noteq> ident) (toasts s)\<rparr>)"

text \<open>
  Durable local storage, as the sequence of values written under each key
  (\<^verbatim>\<open>setBoards\<close>, \<^verbatim>\<open>setTheme\<close>, \<^verbatim>\<open>setAuth\<close> of \<^verbatim>\<open>utils/localStorage\<close>).
\<close>

record storage =
  boards_writes :: "Board list list"
  theme_writes :: "theme_pref list"
  auth_writes :: "(bool \<times> User option) list"

text \<open>
  The persistence mirror of \<^verbatim>\<open>StoreHydration.tsx\<close>:
  \<^verbatim>\<open>useStore.subscribe((state) => { if (state.boards.length > 0) setBoards(...) })\<close>.
\<close>

definition persistence_listener :: "AppStore \<Rightarrow> storage \<Rightarrow> storage" where
  "persistence_listener state sto =
     (if length (boards state) > 0
      then sto\<lparr>boards_writes := boards_writes sto @ [boards state]\<rparr>
      else sto)"

definition notify :: "AppStore option \<Rightarrow> AppStore \<times> storage \<Rightarrow> AppStore \<times> storage" where
  "notify next cur =
     (case next of
        None \<Rightarrow> cur
      | Some s' \<Rightarrow> (s', persistence_listener s' (snd cur)))"

text \<open>
  One call of a store function while the mirror is subscribed: \<^verbatim>\<open>set\<close> (with its
  listeners), then the write-through of \<^verbatim>\<open>setTheme\<close>, \<^verbatim>\<open>login\<close> and \<^verbatim>\<open>logout\<close>.
\<close>

definition store_call_step ::
  "(BoardsState \<Rightarrow> BoardsAction \<Rightarrow> BoardsState option) \<Rightarrow> store_call
     \<Rightarrow> AppStore \<times> storage \<Rightarrow> AppStore \<times> storage" where
  "store_call_step reduce call cur =
     (let (s', sto') = notify (store_set reduce call (fst cur)) cur in
      case call of
        SetTheme th \<Rightarrow> (s', sto'\<lparr>theme_writes := theme_writes sto' @ [th]\<rparr>)
      | Login u \<Rightarrow> (s', sto'\<lparr>auth_writes := auth_writes sto' @ [(True, Some u)]\<rparr>)
      | Logout \<Rightarrow> (s', sto'\<lparr>auth_writes := auth_writes sto' @ [(False, None)]\<rparr>)
      | _ \<Rightarrow> (s', sto'))"

definition store_run ::
  "(BoardsState \<Rightarrow> BoardsAction \<Rightarrow> BoardsState option) \<Rightarrow> store_call list
     \<Rightarrow> AppStore \<times> storage \<Rightarrow> AppStore \<times> storage" where
  "store_run reduce calls cur = foldl (\<lambda>c call. store_call_step reduce call c) cur calls"

section \<open>Busy keys with a minimum visible duration (\<^verbatim>\<open>UiContext.tsx\<close>)\<close>

text \<open>
  The provider owns two maps held in refs, \<^verbatim>\<open>loadingStartTimesRef\<close> and
  \<^verbatim>\<open>stopTimeoutsRef\<close>, and uses the timers of the host: \<open>timers\<close> is the host's table of
  pending timeouts (handle, then the key whose \<^verbatim>\<open>doStop\<close> it will run and the time at
  which it is due), \<open>next_timer\<close> the next handle (handles are positive, hence truthy).
  \<open>busyKeys\<close> is the store's \<^verbatim>\<open>loadingKeys\<close>. Time is the value of \<^verbatim>\<open>Date.now()\<close>, in
  milliseconds, passed to every step.
\<close>

definition MIN_LOADING_DURATION_MS :: int where
  "MIN_LOADING_DURATION_MS = 300"

record ui_state =
  loadingStartTimes :: "string \<Rightarrow> int option"
  stopTimeouts :: "string \<Rightarrow> nat option"
  timers :: "nat \<Rightarrow> (string \<times> int) option"
  next_timer :: nat
  busyKeys :: "string list"

definition ui_init :: ui_state where
  "ui_init = \<lparr>loadingStartTimes = (\<lambda>_. None), stopTimeouts = (\<lambda>_. None),
              timers = (\<lambda>_. None), next_timer = 1, busyKeys = []\<rparr>"

definition addLoadingKey :: "string \<Rightarrow> string list \<Rightarrow> string list" where
  "addLoadingKey key keys = (if key \<in> set keys then keys else keys @ [key])"

definition removeLoadingKey :: "string \<Rightarrow> string list \<Rightarrow> string list" where
  "removeLoadingKey key keys = filter (\<lambda>k. k \<noteq> key) keys"

definition clearTimeout :: "nat \<Rightarrow> ui_state \<Rightarrow> ui_state" where
  "clearTimeout handle u = u\<lparr>timers := (timers u)(handle := None)\<rparr>"

definition startLoading :: "int \<Rightarrow> string \<Rightarrow> ui_state \<Rightarrow> ui_state" where
  "startLoading now key u =
     (let u1 = (case stopTimeouts u key of
                  Some existingTimeout \<Rightarrow>
                    (clearTimeout existingTimeout u)
                      \<lparr>stopTimeouts := (stopTimeouts u)(key := None)\<rparr>
                | None \<Rightarrow> u)
      in u1\<lparr>loadingStartTimes := (loadingStartTimes u1)(key \<mapsto> now),
            busyKeys := addLoadingKey key (busyKeys u1)\<rparr>)"

definition doStop :: "string \<Rightarrow> ui_state \<Rightarrow> ui_state" where
  "doStop key u =
     u\<lparr>loadingStartTimes := (loadingStartTimes u)(key := None),
       stopTimeouts := (stopTimeouts u)(key := None),
       busyKeys := removeLoadingKey key (busyKeys u)\<rparr>"

text \<open>
  \<^verbatim>\<open>const elapsed = startTime ? Date.now() - startTime : 0\<close>: a missing start time and
  the start time \<open>0\<close> are both falsy.
\<close>

definition stopLoading :: "int \<Rightarrow> string \<Rightarrow> ui_state \<Rightarrow> ui_state" where
  "stopLoading now key u =
     (let elapsed = (case loadingStartTimes u key of
                       Some startTime \<Rightarrow> if startTime \<noteq> 0 then now - startTime else 0
                     | None \<Rightarrow> 0);
          remaining = max 0 (MIN_LOADING_DURATION_MS - elapsed);
          u1 = (case stopTimeouts u key of
                  Some existingTimeout \<Rightarrow> clearTimeout existingTimeout u
                | None \<Rightarrow> u)
      in if remaining > 0
         then u1\<lparr>timers := (timers u1)(next_timer u1 \<mapsto> (key, now + remaining)),
                 stopTimeouts := (stopTimeouts u1)(key \<mapsto> next_timer u1),
                 next_timer := Suc (next_timer u1)\<rparr>
         else doStop key u1)"

text \<open>
  The host runs the callback of a pending timeout once, no earlier than its due time;
  the callback is \<^verbatim>\<open>doStop\<close> for the key it was created for.
\<close>

definition timerFires :: "int \<Rightarrow> nat \<Rightarrow> ui_state \<Rightarrow> ui_state" where
  "timerFires now handle u =
     (case timers u handle of
        None \<Rightarrow> u
      | Some (key, due) \<Rightarrow>
          if due \<le> now then doStop key (clearTimeout handle u) else u)"

text \<open>
  The cleanup of the provider's effect, run when the provider is unmounted: every timeout
  registered in \<^verbatim>\<open>stopTimeoutsRef\<close> is cleared and the map is emptied. (A pending
  timeout is registered, if at all, under the key it was created for.)
\<close>

definition providerCleanup :: "ui_state \<Rightarrow> ui_state" where
  "providerCleanup u =
     u\<lparr>timers := (\<lambda>handle.
          case timers u handle of
            None \<Rightarrow> None
          | Some (key, due) \<Rightarrow>
              if stopTimeouts u key = Some handle then None else Some (key, due)),
       stopTimeouts := (\<lambda>_. None)\<rparr>"

datatype ui_event =
    StartLoading string
  | StopLoading string
  | TimerFires nat
  | ProviderUnmounts

fun ui_step :: "int \<times> ui_event \<Rightarrow> ui_state \<Rightarrow> ui_state" where
  "ui_step (now, StartLoading key) u = startLoading now key u"
| "ui_step (now, StopLoading key) u = stopLoading now key u"
| "ui_step (now, TimerFires handle) u = timerFires now handle u"
| "ui_step (now, ProviderUnmounts) u = providerCleanup u"

definition ui_run :: "(int \<times> ui_event) list \<Rightarrow> ui_state \<Rightarrow> ui_state" where
  "ui_run evs u = foldl (\<lambda>u ev. ui_step ev u) u evs"

text \<open>A timed run is well formed when the clock never goes backwards.\<close>

definition clock_monotone :: "(int \<times> ui_event) list \<Rightarrow> bool" where
  "clock_monotone evs = sorted (map fst evs)"

section \<open>The hydration controller (\<^verbatim>\<open>StoreHydration.tsx\<close>)\<close>

text \<open>
  Each run of the hydration effect creates a closure with its own \<^verbatim>\<open>cancelled\<close> flag and
  starts one fetch; such a run is an attempt, and attempts are numbered in the order of
  their creation. The cleanup of the effect sets the flag of the attempt that the effect
  created. The calls into the feedback functions of \<^verbatim>\<open>useUi\<close> are recorded in order, and
  so are the dispatches; the reducer behind \<^verbatim>\<open>dispatch\<close> is a parameter.
\<close>

record attempt =
  cancelled :: bool
  settled :: bool

datatype ui_call =
    CallStartLoading string
  | CallStopLoading string
  | CallShowToast toast_type string

datatype fetch_outcome =
    Resolved "Board list"
  | RejectedError string
  | RejectedOther

record hydration =
  store :: BoardsState
  loadError :: "string option"
  retryAttempt :: nat
  attempts :: "attempt list"
  mounted :: bool
  ui_calls :: "ui_call list"
  dispatches :: "BoardsAction list"

definition hydration_init :: hydration where
  "hydration_init =
     \<lparr>store = \<lparr>boards = []\<rparr>, loadError = None, retryAttempt = 0, attempts = [],
      mounted = False, ui_calls = [], dispatches = []\<rparr>"

definition dispatch ::
  "(BoardsState \<Rightarrow> BoardsAction \<Rightarrow> BoardsState) \<Rightarrow> BoardsAction \<Rightarrow> hydration \<Rightarrow> hydration" where
  "dispatch reduce action h =
     h\<lparr>store := reduce (store h) action, dispatches := dispatches h @ [action]\<rparr>"

text \<open>The synchronous part of the effect, up to the start of the fetch.\<close>

definition run_effect :: "hydration \<Rightarrow> hydration" where
  "run_effect h =
     h\<lparr>attempts := attempts h @ [\<lparr>cancelled = False, settled = False\<rparr>],
       loadError := None,
       ui_calls := ui_calls h @ [CallStartLoading ''initBoards'']\<rparr>"

text \<open>The cleanup \<^verbatim>\<open>() => { cancelled = true }\<close> of the effect that is in place.\<close>

definition cleanup :: "hydration \<Rightarrow> hydration" where
  "cleanup h =
     (if attempts h = [] then h
      else h\<lparr>attempts := (attempts h)
             [length (attempts h) - 1 := (last (attempts h))\<lparr>cancelled := True\<rparr>]\<rparr>)"

text \<open>\<^verbatim>\<open>error instanceof Error ? error.message : 'Failed to load boards'\<close>\<close>

definition failure_message :: "fetch_outcome \<Rightarrow> string" where
  "failure_message outcome =
     (case outcome of RejectedError m \<Rightarrow> m | _ \<Rightarrow> ''Failed to load boards'')"

text \<open>
  The continuation of the async function when the fetch of attempt \<open>a\<close> settles:
  \<^verbatim>\<open>try\<close>, \<^verbatim>\<open>catch\<close> and \<^verbatim>\<open>finally\<close>, each guarded by \<^verbatim>\<open>if (!cancelled)\<close>.
\<close>

definition on_settled ::
  "(BoardsState \<Rightarrow> BoardsAction \<Rightarrow> BoardsState) \<Rightarrow> attempt \<Rightarrow> fetch_outcome
     \<Rightarrow> hydration \<Rightarrow> hydration" where
  "on_settled reduce a outcome h =
     (let h1 = (case outcome of
                  Resolved loadedBoards \<Rightarrow>
                    if \<not> cancelled a then dispatch reduce (SET_BOARDS loadedBoards) h else h
                | _ \<Rightarrow>
                    if \<not> cancelled a
                    then h\<lparr>loadError := Some (failure_message outcome),
                           ui_calls := ui_calls h
                             @ [CallShowToast error (failure_message outcome)]\<rparr>
                    else h)
      in if \<not> cancelled a
         then h1\<lparr>ui_calls := ui_calls h1 @ [CallStopLoading ''initBoards'']\<rparr>
         else h1)"

text \<open>
  What can happen to the controller: it is activated (mounted) or deactivated, the retry
  counter is incremented (which re-runs the effect: cleanup, then a new run), the fetch of
  an attempt settles, or some other part of the application dispatches an action. A
  promise settles once, and only an attempt that exists can settle; the retry button
  exists only while the controller is mounted.
\<close>

datatype hydration_event =
    Mount
  | Unmount
  | Retry
  | Settle nat fetch_outcome
  | OtherDispatch BoardsAction

fun hydration_step ::
  "(BoardsState \<Rightarrow> BoardsAction \<Rightarrow> BoardsState) \<Rightarrow> hydration_event \<Rightarrow> hydration
     \<Rightarrow> hydration" where
  "hydration_step reduce Mount h =
     (if mounted h then h else run_effect (h\<lparr>mounted := True\<rparr>))"
| "hydration_step reduce Unmount h =
     (if mounted h then (cleanup h)\<lparr>mounted := False\<rparr> else h)"
| "hydration_step reduce Retry h =
     (if mounted h
      then run_effect ((cleanup h)\<lparr>retryAttempt := retryAttempt h + 1\<rparr>)
      else h)"
| "hydration_step reduce (Settle i outcome) h =
     (if i < length (attempts h) \<and> \<not> settled (attempts h ! i)
      then on_settled reduce (attempts h ! i) outcome
             (h\<lparr>attempts := (attempts h)[i := (attempts h ! i)\<lparr>settled := True\<rparr>]\<rparr>)
      else h)"
| "hydration_step reduce (OtherDispatch action) h = dispatch reduce action h"

definition hydration_run ::
  "(BoardsState \<Rightarrow> BoardsAction \<Rightarrow> BoardsState) \<Rightarrow> hydration_event list \<Rightarrow> hydration
     \<Rightarrow> hydration" where
  "hydration_run reduce evs h = foldl (\<lambda>h ev. hydration_step reduce ev h) h evs"

text \<open>
  An attempt has been superseded when a later attempt exists or the controller has been
  deactivated; otherwise it is the current attempt.
\<close>

definition superseded :: "hydration \<Rightarrow> nat \<Rightarrow> bool" where
  "superseded h i =
     (i < length (attempts h) \<and> (Suc i < length (attempts h) \<or> \<not> mounted h))"

definition current_attempt :: "hydration \<Rightarrow> nat \<Rightarrow> bool" where
  "current_attempt h i = (Suc i = length (attempts h) \<and> mounted h)"

text \<open>A settlement of a superseded attempt, as an event.\<close>

definition stale_settlement :: "hydration \<Rightarrow> hydration_event \<Rightarrow> bool" where
  "stale_settlement h ev =
     (case ev of Settle i outcome \<Rightarrow> superseded h i | _ \<Rightarrow> False)"

text \<open>The fetch failed: it rejected, with an error or with any other value.\<close>

definition is_failure :: "fetch_outcome \<Rightarrow> bool" where
  "is_failure outcome = (case outcome of Resolved _ \<Rightarrow> False | _ \<Rightarrow> True)"

section \<open>Sample data\<close>

text \<open>
  A board in the shape of the fixtures of the repository's tests, used to evaluate the
  definitions on concrete inputs.
\<close>

definition sample_task :: "string \<Rightarrow> string \<Rightarrow> string \<Rightarrow> Task" where
  "sample_task i t col =
     \<lparr>id_task = i, title = t, description = Some [], status = Some col, subtasks = None\<rparr>"

definition sample_board :: Board where
  "sample_board =
     \<lparr>name_board = ''Board'', columns =
        [\<lparr>name = ''Todo'', tasks = [sample_task ''task-1'' ''X'' ''Todo'',
                                     sample_task ''task-2'' ''Y'' ''Todo'']\<rparr>,
         \<lparr>name = ''Done'', tasks = [sample_task ''task-3'' ''Z'' ''Done'']\<rparr>]\<rparr>"

text \<open>A raw board list and a behaviour of the clock and random generator.\<close>

definition sample_raw_boards :: "RawBoard list" where
  "sample_raw_boards =
     [\<lparr>name_rawboard = ''Board'', columns_raw =
        [\<lparr>name_rawcol = ''Todo'', tasks_raw =
            [\<lparr>id_raw = None, title_raw = ''X'', description_raw = None,
              status_raw = Some ''Todo'', subtasks_raw = None\<rparr>,
             \<lparr>id_raw = Some ''task-7'', title_raw = ''Y'', description_raw = None,
              status_raw = Some ''Todo'', subtasks_raw = None\<rparr>,
             \<lparr>id_raw = Some [], title_raw = ''Z'', description_raw = None,
              status_raw = Some ''Todo'', subtasks_raw = None\<rparr>]\<rparr>]\<rparr>]"

definition sample_env :: "nat \<Rightarrow> int \<times> string" where
  "sample_env k = (40 + int k, ''abc'')"

text \<open>The states of the repository's reducer tests for \<open>MOVE_TASK\<close> and \<open>REORDER_TASK\<close>.\<close>

definition move_fixture :: BoardsState where
  "move_fixture =
     \<lparr>boards = [\<lparr>name_board = ''Board'', columns =
        [\<lparr>name = ''Todo'', tasks = [sample_task ''task-1'' ''Move Me'' ''Todo'']\<rparr>,
         \<lparr>name = ''Done'', tasks = []\<rparr>]\<rparr>]\<rparr>"

definition reorder_fixture :: BoardsState where
  "reorder_fixture =
     \<lparr>boards = [\<lparr>name_board = ''Board'', columns =
        [\<lparr>name = ''Todo'', tasks = [sample_task ''task-1'' ''Task 1'' ''Todo'',
                                     sample_task ''task-2'' ''Task 2'' ''Todo'']\<rparr>]\<rparr>]\<rparr>"

text \<open>A store holding one board, and an empty storage.\<close>

definition sample_store :: AppStore where
  "sample_store =
     \<lparr>boards = [sample_board], theme = light, user = None, isLoggedIn = False,
      loadingKeys = [], toasts = []\<rparr>"

definition empty_storage :: storage where
  "empty_storage = \<lparr>boards_writes = [], theme_writes = [], auth_writes = []\<rparr>"

definition sample_toast :: UiToast where
  "sample_toast = \<lparr>id_toast = ''1'', type_toast = info, message = ''Saved''\<rparr>"

section \<open>Invariants\<close>

text \<open>
  Only the latest attempt can be live: every attempt whose flag is still unset is the last
  one created, and the controller is mounted.
\<close>

definition hydration_inv :: "hydration \<Rightarrow> bool" where
  "hydration_inv h =
     (\<forall>i < length (attempts h). \<not> cancelled (attempts h ! i) \<longrightarrow>
        mounted h \<and> Suc i = length (attempts h))"

text \<open>While the controller is mounted, the attempt of the effect in place is live.\<close>

definition live_inv :: "hydration \<Rightarrow> bool" where
  "live_inv h =
     (mounted h \<longrightarrow>
        attempts h \<noteq> [] \<and> \<not> cancelled (attempts h ! (length (attempts h) - 1)))"

text \<open>
  What holds of the refs and the timer table at every moment \<open>T\<close> of a run: no start time
  lies in the future; a pending timeout is the one registered for its key, and it is due
  no earlier than the minimum duration after the start time of that key; registered
  handles have been issued.
\<close>

definition ui_inv :: "int \<Rightarrow> ui_state \<Rightarrow> bool" where
  "ui_inv T u =
     ((\<forall>k s. loadingStartTimes u k = Some s \<longrightarrow> s \<le> T)
      \<and> (\<forall>h k due. timers u h = Some (k, due) \<longrightarrow>
            stopTimeouts u k = Some h
            \<and> (\<forall>s. loadingStartTimes u k = Some s \<longrightarrow> s + MIN_LOADING_DURATION_MS \<le> due))
      \<and> (\<forall>k h. stopTimeouts u k = Some h \<longrightarrow> h < next_timer u))"

text \<open>The key is busy and was started at or after \<open>s\<close>.\<close>

definition busy_since :: "int \<Rightarrow> string \<Rightarrow> ui_state \<Rightarrow> bool" where
  "busy_since s k u =
     (k \<in> set (busyKeys u) \<and> (\<exists>s'. loadingStartTimes u k = Some s' \<and> s \<le> s'))"

text \<open>
  The three quantities computed by \<open>stopLoading\<close> before it decides: the time elapsed
  since the start, the time that remains of the minimum duration, and the state once the
  pending timeout of the key, if any, has been cleared.
\<close>

definition stop_elapsed :: "int \<Rightarrow> string \<Rightarrow> ui_state \<Rightarrow> int" where
  "stop_elapsed now key u =
     (case loadingStartTimes u key of
        Some startTime \<Rightarrow> if startTime \<noteq> 0 then now - startTime else 0
      | None \<Rightarrow> 0)"

definition stop_remaining :: "int \<Rightarrow> string \<Rightarrow> ui_state \<Rightarrow> int" where
  "stop_remaining now key u = max 0 (MIN_LOADING_DURATION_MS - stop_elapsed now key u)"

definition stop_cleared :: "string \<Rightarrow> ui_state \<Rightarrow> ui_state" where
  "stop_cleared key u =
     (case stopTimeouts u key of
        Some existingTimeout \<Rightarrow> clearTimeout existingTimeout u
      | None \<Rightarrow> u)"

chapter \<open>Properties\<close>

section \<open>Numerals, splitting and joining\<close>

lemmas codec_eval =
  decodeTaskId_def decodeColumnId_def slice_from_def parseInt_def leading_digits_def
  is_ws_def is_digit_def digit_val_def digits_value_def digit_num_def

lemmas sample_eval = sample_board_def sample_task_def resolvable_def

lemma digit_val_digit_char: "d < 10 \<Longrightarrow> digit_val (digit_char d) = Some d"
proof -
  assume "d < 10"
  then consider "d = 0" | "d = 1" | "d = 2" | "d = 3" | "d = 4" | "d = 5" | "d = 6"
    | "d = 7" | "d = 8" | "d = 9" by atomize_elim arith
  then show ?thesis
    by cases (simp_all add: digit_char_def digit_val_def)
qed

lemma is_digit_digit_char: "d < 10 \<Longrightarrow> is_digit (digit_char d)"
  by (simp add: is_digit_def digit_val_digit_char)

lemma digits_of_all_digits: "\<forall>c \<in> set (digits_of n). is_digit c"
proof (induction n rule: digits_of.induct)
  case (1 n)
  show ?case
  proof (cases "n < 10")
    case True
    then show ?thesis by (simp add: digits_of.simps[of n] is_digit_digit_char)
  next
    case False
    with 1 show ?thesis by (simp add: digits_of.simps[of n] is_digit_digit_char)
  qed
qed

lemma digits_of_nonempty: "digits_of n \<noteq> []"
  by (cases "n < 10") (simp_all add: digits_of.simps[of n])

lemma digits_value_snoc:
  "digits_value (ds @ [c]) = 10 * digits_value ds + digit_num c"
  by (simp add: digits_value_def)

lemma digits_value_digits_of: "digits_value (digits_of n) = n"
proof (induction n rule: digits_of.induct)
  case (1 n)
  show ?case
  proof (cases "n < 10")
    case True
    then show ?thesis
      by (simp add: digits_of.simps[of n] digits_value_def digit_num_def digit_val_digit_char)
  next
    case False
    with 1 have "digits_value (digits_of (n div 10)) = n div 10" by simp
    with False show ?thesis
      by (simp add: digits_of.simps[of n] digits_value_snoc digit_num_def digit_val_digit_char)
  qed
qed

lemma js_split_nonempty: "js_split sep s \<noteq> []"
  by (induction sep s rule: js_split.induct) (auto split: list.splits)

lemma js_split_cons_no_prefix:
  "\<not> prefix sep (c # cs) \<Longrightarrow>
     js_split sep (c # cs) = (c # hd (js_split sep cs)) # tl (js_split sep cs)"
  using js_split_nonempty[of sep cs] by (cases "js_split sep cs") auto

lemma js_split_delim_prefix: "js_split ''::'' (''::'' @ s) = [] # js_split ''::'' s"
  by simp

lemma js_split_clean_append:
  "\<not> has_delim (a @ '':'') \<Longrightarrow> js_split ''::'' (a @ ''::'' @ s) = a # js_split ''::'' s"
proof (induction a)
  case Nil
  then show ?case by simp
next
  case (Cons c a)
  have np: "\<not> prefix ''::'' ((c # a) @ ''::'' @ s)"
    using Cons.prems by (cases a) auto
  have "\<not> has_delim (a @ '':'')"
    using Cons.prems by (cases a) auto
  then have ih: "js_split ''::'' (a @ ''::'' @ s) = a # js_split ''::'' s"
    by (rule Cons.IH)
  show ?case
    using np ih js_split_cons_no_prefix[of "''::''" c "a @ ''::'' @ s"] by simp
qed

lemma js_join_split: "sep \<noteq> [] \<Longrightarrow> js_join sep (js_split sep s) = s"
proof (induction sep s rule: js_split.induct)
  case (1 sep)
  then show ?case by simp
next
  case (2 sep c cs)
  show ?case
  proof (cases "prefix sep (c # cs)")
    case True
    let ?r = "drop (length sep) (c # cs)"
    have r: "c # cs = sep @ ?r"
      using True by (auto simp: prefix_def)
    have unf: "js_split sep (c # cs) = [] # js_split sep ?r"
      using True 2(3) by simp
    have ih: "js_join sep (js_split sep ?r) = ?r"
      using 2 True by simp
    obtain q qs where q: "js_split sep ?r = q # qs"
      using js_split_nonempty by (cases "js_split sep ?r") auto
    have "js_join sep (js_split sep (c # cs)) = sep @ js_join sep (q # qs)"
      unfolding unf q by simp
    also have "\<dots> = sep @ ?r" using ih q by simp
    also have "\<dots> = c # cs" using r by simp
    finally show ?thesis .
  next
    case False
    obtain q qs where q: "js_split sep cs = q # qs"
      using js_split_nonempty by (cases "js_split sep cs") auto
    have "js_join sep (js_split sep cs) = cs" using 2 False by simp
    then show ?thesis using False q by (cases qs) auto
  qed
qed

lemma is_digit_not_special:
  "is_digit c \<Longrightarrow> \<not> is_ws c \<and> c \<noteq> CHR ''-'' \<and> c \<noteq> CHR ''+'' \<and> c \<noteq> CHR '':''"
  by (auto simp: is_digit_def digit_val_def is_ws_def split: if_splits)

lemma no_colon_no_delim: "CHR '':'' \<notin> set a \<Longrightarrow> \<not> has_delim (a @ '':'')"
  by (induction a rule: has_delim.induct) auto

lemma digits_of_no_colon: "CHR '':'' \<notin> set (digits_of n)"
  using digits_of_all_digits[of n] is_digit_not_special by blast

lemma bit_length_le: "n < 2 ^ k \<Longrightarrow> bit_length n \<le> k"
proof (induction n arbitrary: k rule: bit_length.induct)
  case (1 n)
  show ?case
  proof (cases "n = 0")
    case True
    then show ?thesis by (simp add: bit_length.simps[of 0])
  next
    case False
    with 1(2) obtain k' where k: "k = Suc k'" by (cases k) auto
    with 1(2) have "n div 2 < 2 ^ k'" by auto
    with 1(1)[OF False] have "bit_length (n div 2) \<le> k'" by blast
    with False k show ?thesis by (simp add: bit_length.simps[of n])
  qed
qed

lemma bit_length_lower: "n \<noteq> 0 \<Longrightarrow> 2 ^ (bit_length n - 1) \<le> n"
proof (induction n rule: bit_length.induct)
  case (1 n)
  show ?case
  proof (cases "n div 2 = 0")
    case True
    with 1(2) show ?thesis
      by (simp add: bit_length.simps[of n] bit_length.simps[of 0])
  next
    case False
    with 1 have ih: "2 ^ (bit_length (n div 2) - 1) \<le> n div 2" by blast
    from False have pos: "0 < bit_length (n div 2)"
      by (simp add: bit_length.simps[of "n div 2"])
    then have "(2::nat) ^ bit_length (n div 2) = 2 * 2 ^ (bit_length (n div 2) - 1)"
      by (cases "bit_length (n div 2)") auto
    with ih have "2 ^ bit_length (n div 2) \<le> 2 * (n div 2)" by simp
    also have "\<dots> \<le> n" by simp
    finally show ?thesis using 1(2) by (simp add: bit_length.simps[of n])
  qed
qed

lemma round_to_double_safe: "x < 2 ^ 53 \<Longrightarrow> round_to_double x = x"
  using bit_length_le[of x 53] by (simp add: round_to_double_def Let_def)

lemma round_to_double_large:
  assumes "2 ^ 53 \<le> x"
  shows "2 ^ 53 \<le> round_to_double x"
proof (cases "bit_length x \<le> 53")
  case True
  with assms show ?thesis by (simp add: round_to_double_def Let_def)
next
  case False
  define sh where "sh = bit_length x - 53"
  from False have sh: "bit_length x - 1 = 52 + sh" and sh1: "1 \<le> sh"
    by (simp_all add: sh_def)
  from assms have "x \<noteq> 0" by auto
  from bit_length_lower[OF this] sh have "2 ^ 52 * 2 ^ sh \<le> x"
    by (simp add: power_add)
  then have q: "2 ^ 52 \<le> x div 2 ^ sh"
    by (simp add: less_eq_div_iff_mult_less_eq)
  have "(2::nat) ^ 53 = 2 ^ 52 * 2 ^ 1" by simp
  also have "\<dots> \<le> 2 ^ 52 * 2 ^ sh"
    using sh1 by (intro mult_le_mono2 power_increasing) simp_all
  also have "\<dots> \<le> x div 2 ^ sh * 2 ^ sh"
    using q by (rule mult_le_mono1)
  finally have base: "2 ^ 53 \<le> x div 2 ^ sh * 2 ^ sh" .
  have "x div 2 ^ sh * 2 ^ sh \<le> round_to_double x"
    using False by (simp add: round_to_double_def Let_def sh_def)
  with base show ?thesis by (rule order_trans)
qed

lemma shortest_decimal_denotes:
  "shortest_decimal x = x \<or> round_to_double (shortest_decimal x) = x"
proof (cases "concat (map (candidates x) [1..<18])")
  case Nil
  show ?thesis unfolding shortest_decimal_def Nil by simp
next
  case (Cons v vs)
  have "v \<in> set (concat (map (candidates x) [1..<18]))" unfolding Cons by simp
  then obtain k where "v \<in> set (candidates x k)" by auto
  then have "round_to_double v = x" by (simp add: candidates_def Let_def split: if_splits)
  then show ?thesis unfolding shortest_decimal_def Cons by simp
qed

lemma shortest_decimal_safe:
  assumes "x < 2 ^ 53"
  shows "shortest_decimal x = x"
proof (rule ccontr)
  assume ne: "shortest_decimal x \<noteq> x"
  with shortest_decimal_denotes[of x] have r: "round_to_double (shortest_decimal x) = x"
    by blast
  show False
  proof (cases "shortest_decimal x < 2 ^ 53")
    case True
    from round_to_double_safe[OF this] r ne show False by simp
  next
    case False
    then have "2 ^ 53 \<le> shortest_decimal x" by simp
    from round_to_double_large[OF this] r assms show False by simp
  qed
qed

lemma number_to_string_safe:
  assumes "\<bar>i\<bar> < 2 ^ 53"
  shows "number_to_string (Num i) =
           (if i < 0 then CHR ''-'' # digits_of (nat (- i)) else digits_of (nat i))"
proof -
  define n where "n = nat \<bar>i\<bar>"
  have x: "n < 2 ^ 53" using assms by (simp add: n_def nat_less_iff)
  have r: "round_to_double n = n" by (rule round_to_double_safe[OF x])
  have s: "shortest_decimal n = n" by (rule shortest_decimal_safe[OF x])
  have "(2::nat) ^ 53 \<le> 2 ^ 1024" by (rule power_increasing) simp_all
  with x have big: "(2 ^ 1024 \<le> n) = False" by simp
  have "(2::nat) ^ 53 < 10 ^ 21" by simp
  with x have m: "magnitude_to_string n = digits_of n"
    by (simp add: magnitude_to_string_def)
  have "number_to_string (Num i) = (if i < 0 then ''-'' else '''') @ digits_of n"
    unfolding number_to_string.simps Let_def n_def[symmetric] r s m big
    by (simp only: if_False)
  moreover have "n = (if i < 0 then nat (- i) else nat i)" by (simp add: n_def)
  ultimately show ?thesis by (cases "i < 0") simp_all
qed

lemma number_to_string_no_delim:
  "\<bar>i\<bar> < 2 ^ 53 \<Longrightarrow> \<not> has_delim (number_to_string (Num i) @ '':'')"
  by (rule no_colon_no_delim) (simp add: number_to_string_safe digits_of_no_colon)

lemma leading_digits_digits_of: "leading_digits (digits_of n) = digits_of n"
proof -
  obtain c cs where cs: "digits_of n = c # cs"
    using digits_of_nonempty[of n] by (cases "digits_of n") auto
  have d: "\<forall>x \<in> set (c # cs). is_digit x"
    using digits_of_all_digits[of n] cs by simp
  then have c: "is_digit c" by simp
  have "dropWhile is_ws (c # cs) = c # cs"
    using is_digit_not_special[OF c] by simp
  moreover have "strip_sign (c # cs) = (False, c # cs)"
    using is_digit_not_special[OF c] by simp
  moreover have "takeWhile is_digit (c # cs) = c # cs"
    using d by (simp only: takeWhile_eq_all_conv)
  ultimately show ?thesis by (simp add: leading_digits_def cs)
qed

lemma parseInt_digits_of: "parseInt (digits_of n) = Num (int n)"
proof -
  obtain c cs where cs: "digits_of n = c # cs"
    using digits_of_nonempty[of n] by (cases "digits_of n") auto
  have c: "is_digit c" using digits_of_all_digits[of n] cs by simp
  have "fst (strip_sign (dropWhile is_ws (digits_of n))) = False"
    using is_digit_not_special[OF c] by (simp add: cs)
  then show ?thesis
    using digits_of_nonempty[of n]
    by (simp add: parseInt_def leading_digits_digits_of digits_value_digits_of)
qed

lemma parseInt_minus_digits_of: "parseInt (CHR ''-'' # digits_of n) = Num (- int n)"
proof -
  have ws: "\<not> is_ws CHR ''-''" by (simp add: is_ws_def)
  have tw: "takeWhile is_digit (digits_of n) = digits_of n"
    using digits_of_all_digits[of n] by (simp only: takeWhile_eq_all_conv)
  show ?thesis
    using ws digits_of_nonempty[of n]
    by (simp add: parseInt_def leading_digits_def tw digits_value_digits_of)
qed

lemma parseInt_number_to_string:
  "\<bar>i\<bar> < 2 ^ 53 \<Longrightarrow> parseInt (number_to_string (Num i)) = Num i"
  by (simp add: number_to_string_safe parseInt_digits_of parseInt_minus_digits_of)

lemma length_js_split: "length (js_split ''::'' s) = Suc (count_delim s)"
proof (induction s rule: count_delim.induct)
  case (1 c d cs)
  show ?case
  proof (cases "c = CHR '':'' \<and> d = CHR '':''")
    case True
    with 1 show ?thesis by simp
  next
    case False
    then have "\<not> prefix ''::'' (c # d # cs)" by auto
    then have "js_split ''::'' (c # d # cs) =
        (c # hd (js_split ''::'' (d # cs))) # tl (js_split ''::'' (d # cs))"
      by (rule js_split_cons_no_prefix)
    then have "length (js_split ''::'' (c # d # cs)) = length (js_split ''::'' (d # cs))"
      using js_split_nonempty[of "''::''" "d # cs"]
      by (cases "js_split ''::'' (d # cs)") (simp_all del: js_split.simps)
    moreover have "length (js_split ''::'' (d # cs)) = Suc (count_delim (d # cs))"
      by (rule 1(2)[OF False])
    moreover have "count_delim (c # d # cs) = count_delim (d # cs)"
      using False by auto
    ultimately show ?thesis by (simp only:)
  qed
qed simp_all

lemma split_encoded_task:
  assumes "\<not> has_delim (col @ '':'')" and safe: "\<bar>i\<bar> < 2 ^ 53"
  shows "js_split ''::'' (encodeTaskId (Num i) col ttl) =
           number_to_string (Num i) # col # js_split ''::'' ttl"
proof -
  have "js_split ''::'' (number_to_string (Num i) @ ''::'' @ (col @ ''::'' @ ttl)) =
          number_to_string (Num i) # js_split ''::'' (col @ ''::'' @ ttl)"
    by (rule js_split_clean_append[OF number_to_string_no_delim[OF safe]])
  also have "js_split ''::'' (col @ ''::'' @ ttl) = col # js_split ''::'' ttl"
    by (rule js_split_clean_append[OF assms(1)])
  finally show ?thesis by (simp add: encodeTaskId_def)
qed

lemma decode_encode_task:
  assumes "\<not> has_delim (col @ '':'')" and safe: "\<bar>i\<bar> < 2 ^ 53"
  shows "decodeTaskId (encodeTaskId (Num i) col ttl) =
           Some \<lparr>boardIndex = Num i, columnName = col, taskTitle = ttl\<rparr>"
proof -
  obtain q qs where q: "js_split ''::'' ttl = q # qs"
    using js_split_nonempty by (cases "js_split ''::'' ttl") auto
  have j: "js_join ''::'' (q # qs) = ttl"
    using js_join_split[of "''::''" ttl] q by simp
  show ?thesis
    unfolding decodeTaskId_def split_encoded_task[OF assms] q
    using j by (simp add: slice_from_def parseInt_number_to_string[OF safe])
qed

lemma js_split_no_delim: "\<not> has_delim s \<Longrightarrow> js_split ''::'' s = [s]"
proof (induction s rule: has_delim.induct)
  case (1 c d cs)
  then have np: "\<not> prefix ''::'' (c # d # cs)" and nd: "\<not> has_delim (d # cs)" by auto
  have "js_split ''::'' (d # cs) = [d # cs]" using 1 nd by simp
  then show ?case using js_split_cons_no_prefix[OF np] by simp
qed simp_all

lemma decode_encode_column:
  assumes "\<not> has_delim col" and safe: "\<bar>i\<bar> < 2 ^ 53"
  shows "decodeColumnId (encodeColumnId (Num i) col) =
           Some \<lparr>cboardIndex = Num i, ccolumnName = col\<rparr>"
proof -
  have "js_split ''::'' (number_to_string (Num i) @ ''::'' @ col) =
          number_to_string (Num i) # js_split ''::'' col"
    by (rule js_split_clean_append[OF number_to_string_no_delim[OF safe]])
  then have "js_split ''::'' (encodeColumnId (Num i) col) = [number_to_string (Num i), col]"
    using js_split_no_delim[OF assms(1)] by (simp add: encodeColumnId_def)
  then show ?thesis
    by (simp add: decodeColumnId_def parseInt_number_to_string[OF safe])
qed

lemma hd_js_split: "hd (js_split ''::'' s) = first_part s"
proof (induction s rule: first_part.induct)
  case (1 c d cs)
  show ?case
  proof (cases "c = CHR '':'' \<and> d = CHR '':''")
    case True
    then show ?thesis by simp
  next
    case False
    then have "\<not> prefix ''::'' (c # d # cs)" by auto
    from js_split_cons_no_prefix[OF this] 1 False show ?thesis by simp
  qed
qed simp_all

lemma first_part_starts: "hd (first_part (d # cs) @ '':'') = d"
  by (cases cs) auto

lemma first_part_clean: "has_delim s \<Longrightarrow> \<not> has_delim (first_part s @ '':'')"
proof (induction s rule: first_part.induct)
  case (1 c d cs)
  show ?case
  proof (cases "c = CHR '':'' \<and> d = CHR '':''")
    case True
    then show ?thesis by simp
  next
    case False
    with 1 have ih: "\<not> has_delim (first_part (d # cs) @ '':'')" by auto
    obtain x r where xr: "first_part (d # cs) @ '':'' = x # r"
      by (cases "first_part (d # cs) @ '':''") auto
    with first_part_starts[of d cs] have "x = d" by simp
    with False ih xr show ?thesis by auto
  qed
qed simp_all

lemma has_delim_append: "has_delim (a @ ''::'' @ b)"
  by (induction a rule: has_delim.induct) auto

lemma has_delim_snoc: "has_delim a \<Longrightarrow> has_delim (a @ b)"
  by (induction a rule: has_delim.induct) auto

lemma task_column_part:
  assumes safe: "\<bar>i\<bar> < 2 ^ 53"
  shows "js_split ''::'' (encodeTaskId (Num i) col ttl) ! 1 = first_part (col @ ''::'' @ ttl)"
proof -
  have "js_split ''::'' (number_to_string (Num i) @ ''::'' @ (col @ ''::'' @ ttl)) =
          number_to_string (Num i) # js_split ''::'' (col @ ''::'' @ ttl)"
    by (rule js_split_clean_append[OF number_to_string_no_delim[OF safe]])
  then have "js_split ''::'' (encodeTaskId (Num i) col ttl) ! 1 =
               hd (js_split ''::'' (col @ ''::'' @ ttl))"
    using js_split_nonempty[of "''::''" "col @ ''::'' @ ttl"]
    by (simp add: encodeTaskId_def hd_conv_nth)
  then show ?thesis by (simp only: hd_js_split)
qed

lemma decode_encode_task_only_if:
  assumes "decodeTaskId (encodeTaskId (Num i) col ttl) =
             Some \<lparr>boardIndex = Num i, columnName = col, taskTitle = ttl\<rparr>"
    and safe: "\<bar>i\<bar> < 2 ^ 53"
  shows "\<not> has_delim (col @ '':'')"
proof -
  have "js_split ''::'' (encodeTaskId (Num i) col ttl) ! 1 = col"
    using assms(1) by (simp add: decodeTaskId_def Let_def split: if_splits)
  then have "first_part (col @ ''::'' @ ttl) = col"
    by (simp only: task_column_part[OF safe])
  with first_part_clean[OF has_delim_append[of col ttl]] show ?thesis by simp
qed

lemma decode_encode_column_only_if:
  assumes "decodeColumnId (encodeColumnId (Num i) col) =
             Some \<lparr>cboardIndex = Num i, ccolumnName = col\<rparr>"
    and safe: "\<bar>i\<bar> < 2 ^ 53"
  shows "\<not> has_delim col"
proof
  assume hd: "has_delim col"
  have "js_split ''::'' (number_to_string (Num i) @ ''::'' @ col) =
          number_to_string (Num i) # js_split ''::'' col"
    by (rule js_split_clean_append[OF number_to_string_no_delim[OF safe]])
  then have "js_split ''::'' (encodeColumnId (Num i) col) ! 1 = hd (js_split ''::'' col)"
    using js_split_nonempty[of "''::''" col]
    by (simp add: encodeColumnId_def hd_conv_nth)
  moreover have "js_split ''::'' (encodeColumnId (Num i) col) ! 1 = col"
    using assms(1) by (simp add: decodeColumnId_def Let_def split: if_splits)
  ultimately have "first_part col = col" by (simp only: hd_js_split)
  with first_part_clean[OF hd] have "\<not> has_delim (col @ '':'')" by simp
  with has_delim_snoc[OF hd] show False by blast
qed

section \<open>The drag identifier codec\<close>

text \<open>
  Outside the safe range the printed board index need not be the numeral of the index.
  From \<open>10^21\<close> on it is printed in exponent form, of which \<^verbatim>\<open>parseInt\<close> reads the
  leading digit alone: the index \<open>10^21\<close> comes back as \<open>1\<close>.
\<close>

lemma shortest_decimal_first: "candidates x 1 = v # vs \<Longrightarrow> shortest_decimal x = v"
  by (simp add: shortest_decimal_def upt_conv_Cons)

lemma bit_length_sample:
  "bit_length 1000000000000000000000 = 70" "bit_length 2000000000000000000000 = 71"
  by (simp_all add: bit_length.simps)

lemma round_to_double_sample:
  "round_to_double 1000000000000000000000 = 1000000000000000000000"
  "round_to_double 2000000000000000000000 = 2000000000000000000000"
  by (simp_all add: round_to_double_def bit_length_sample)

lemma digits_of_sample:
  "digits_of 1000000000000000000000 = ''1000000000000000000000''" "digits_of 21 = ''21''"
  by (simp_all add: digits_of.simps digit_char_def)

lemma candidates_sample:
  "candidates 1000000000000000000000 1 = [1000000000000000000000]"
  by (simp add: candidates_def digits_of_sample round_to_double_sample)

lemma magnitude_to_string_sample: "magnitude_to_string 1000000000000000000000 = ''1e+21''"
proof -
  have "strip_zeros (digits_of 1000000000000000000000) = ''1''"
    by (simp add: strip_zeros_def digits_of_sample)
  moreover have "length (digits_of 1000000000000000000000) - 1 = 21"
    by (simp add: digits_of_sample)
  ultimately show ?thesis
    by (simp add: magnitude_to_string_def digits_of_sample(2))
qed

lemma number_to_string_exponent_form: "number_to_string (Num (10 ^ 21)) = ''1e+21''"
  by (simp add: number_to_string.simps round_to_double_sample
      shortest_decimal_first[OF candidates_sample] magnitude_to_string_sample)

lemma large_index_not_restored:
  "encodeTaskId (Num (10 ^ 21)) ''c'' ''t'' = ''1e+21::c::t''
   \<and> decodeTaskId (encodeTaskId (Num (10 ^ 21)) ''c'' ''t'') =
       Some \<lparr>boardIndex = Num 1, columnName = ''c'', taskTitle = ''t''\<rparr>"
proof -
  have e: "encodeTaskId (Num (10 ^ 21)) ''c'' ''t'' = ''1e+21::c::t''"
    by (simp only: encodeTaskId_def number_to_string_exponent_form) simp
  show ?thesis unfolding e by (simp add: codec_eval)
qed

text \<open>
  Claim C6, as amended. For every board index of the safe integer range
  (\<open>\<bar>boardIndex\<bar> < 2^53\<close>, which holds of every array index) and every task title, also
  one that contains the delimiter, encoding followed by decoding gives back the triple
  \<open>(boardIndex, columnName, taskTitle)\<close> exactly when the column name neither contains the
  delimiter \<^verbatim>\<open>::\<close> nor ends with a colon (that is, when \<^verbatim>\<open>::\<close> does not occur in the
  column name followed by one colon); everything after the second delimiter is then the
  title. For column identifiers, decoding gives back \<open>(boardIndex, columnName)\<close> exactly
  when the column name does not contain the delimiter.
\<close>

theorem drag_id_roundtrip:
  assumes "\<bar>i\<bar> < 2 ^ 53"
  shows "(decodeTaskId (encodeTaskId (Num i) col ttl) =
            Some \<lparr>boardIndex = Num i, columnName = col, taskTitle = ttl\<rparr>
          \<longleftrightarrow> \<not> has_delim (col @ '':''))
         \<and> (decodeColumnId (encodeColumnId (Num i) col) =
            Some \<lparr>cboardIndex = Num i, ccolumnName = col\<rparr>
          \<longleftrightarrow> \<not> has_delim col)"
  using decode_encode_task[OF _ assms] decode_encode_task_only_if[OF _ assms]
    decode_encode_column[OF _ assms] decode_encode_column_only_if[OF _ assms] by blast

text \<open>
  The claim as stated, for every column name, fails: the column name \<^verbatim>\<open>a::b\<close> is cut at
  its own delimiter, and the rest of it is attributed to the title.
\<close>

theorem drag_id_roundtrip_counterexample:
  "decodeTaskId (encodeTaskId (Num 0) ''a::b'' ''t'') \<noteq>
     Some \<lparr>boardIndex = Num 0, columnName = ''a::b'', taskTitle = ''t''\<rparr>
   \<and> decodeTaskId (encodeTaskId (Num 0) ''a::b'' ''t'') =
     Some \<lparr>boardIndex = Num 0, columnName = ''a'', taskTitle = ''b::t''\<rparr>
   \<and> decodeColumnId (encodeColumnId (Num 0) ''a::b'') \<noteq>
     Some \<lparr>cboardIndex = Num 0, ccolumnName = ''a::b''\<rparr>
   \<and> decodeColumnId (encodeColumnId (Num 0) ''a::b'') =
     Some \<lparr>cboardIndex = Num 0, ccolumnName = ''a''\<rparr>"
  by (simp add: decodeTaskId_def encodeTaskId_def decodeColumnId_def encodeColumnId_def
      number_to_string_safe digits_of.simps digit_char_def slice_from_def parseInt_def
      leading_digits_def
      is_ws_def is_digit_def digit_val_def digits_value_def digit_num_def)

text \<open>The round trip at a concrete input whose title contains the delimiter.\<close>

theorem drag_id_roundtrip_witness:
  "decodeTaskId (encodeTaskId (Num 2) ''To do'' ''a::b'') =
      Some \<lparr>boardIndex = Num 2, columnName = ''To do'', taskTitle = ''a::b''\<rparr>
   \<and> decodeColumnId (encodeColumnId (Num 2) ''To do'') =
      Some \<lparr>cboardIndex = Num 2, ccolumnName = ''To do''\<rparr>"
proof -
  have "\<bar>2::int\<bar> < 2 ^ 53" by simp
  moreover have "\<not> has_delim (''To do'' @ '':'')" and "\<not> has_delim ''To do''" by simp_all
  ultimately show ?thesis
    using drag_id_roundtrip[of 2 "''To do''" "''a::b''"] by blast
qed

section \<open>Totality of the decoders\<close>

lemma decodeTaskId_None_iff: "decodeTaskId s = None \<longleftrightarrow> length (js_split ''::'' s) < 3"
  by (simp add: decodeTaskId_def Let_def)

lemma decodeColumnId_None_iff: "decodeColumnId s = None \<longleftrightarrow> length (js_split ''::'' s) < 2"
  by (simp add: decodeColumnId_def Let_def)

lemma first_segment: "js_split ''::'' s ! 0 = first_part s"
  using js_split_nonempty[of "''::''" s] hd_js_split[of s] by (simp add: hd_conv_nth)

lemma decodeTaskId_boardIndex:
  "decodeTaskId s = Some r \<Longrightarrow> boardIndex r = parseInt (first_part s)"
  using first_segment[of s] by (auto simp: decodeTaskId_def Let_def split: if_splits)

lemma decodeColumnId_boardIndex:
  "decodeColumnId s = Some r \<Longrightarrow> cboardIndex r = parseInt (first_part s)"
  using first_segment[of s] by (auto simp: decodeColumnId_def Let_def split: if_splits)

lemma parseInt_NaN_iff: "parseInt seg = NaN \<longleftrightarrow> leading_digits seg = []"
  by (simp add: parseInt_def Let_def)

lemma numeral_has_leading_digits: "is_numeral seg \<Longrightarrow> leading_digits seg \<noteq> []"
proof (cases seg)
  case Nil
  assume "is_numeral seg"
  with Nil show ?thesis by (simp add: is_numeral_def)
next
  case (Cons c cs)
  assume num: "is_numeral seg"
  show ?thesis
  proof (cases "c = CHR ''-''")
    case True
    with num Cons have cs: "cs \<noteq> []" "list_all is_digit cs" by (simp_all add: is_numeral_def)
    then have tw: "takeWhile is_digit cs = cs"
      by (simp only: takeWhile_eq_all_conv list_all_iff)
    have "\<not> is_ws CHR ''-''" by (simp add: is_ws_def)
    then show ?thesis using cs(1) True Cons by (simp add: leading_digits_def tw)
  next
    case False
    with num Cons have all: "list_all is_digit (c # cs)" by (simp add: is_numeral_def)
    then have c: "is_digit c" by simp
    have tw: "takeWhile is_digit (c # cs) = c # cs"
      using all by (simp only: takeWhile_eq_all_conv list_all_iff)
    show ?thesis
      using is_digit_not_special[OF c] Cons c by (simp add: leading_digits_def)
  qed
qed

text \<open>
  Claim C10, as amended. The decoders are total functions of the input string.
  \<open>decodeTaskId\<close> returns null exactly when a left-to-right scan finds fewer than two
  occurrences of the delimiter, that is, when splitting gives fewer than three parts;
  \<open>decodeColumnId\<close> returns null exactly when there is no occurrence (fewer than two
  parts). Whatever the first segment is, a result that is not null carries
  \<open>parseInt\<close> of that segment as its board index: this is \<open>NaN\<close> exactly when the segment
  has no decimal digit right after its leading white space and one optional sign, and
  then the segment is not a numeral. A segment that starts with digits and goes on with
  other characters is not a numeral either, but it is given the value of its leading
  digits, not \<open>NaN\<close>.
\<close>

theorem decoders_total:
  "(decodeTaskId s = None \<longleftrightarrow> count_delim s < 2)
   \<and> (decodeTaskId s = None \<longleftrightarrow> length (js_split ''::'' s) < 3)
   \<and> (decodeColumnId s = None \<longleftrightarrow> count_delim s = 0)
   \<and> (decodeColumnId s = None \<longleftrightarrow> length (js_split ''::'' s) < 2)
   \<and> (\<forall>r. decodeTaskId s = Some r \<longrightarrow>
         boardIndex r = parseInt (js_split ''::'' s ! 0)
         \<and> (boardIndex r = NaN \<longleftrightarrow> leading_digits (js_split ''::'' s ! 0) = [])
         \<and> (boardIndex r = NaN \<longrightarrow> \<not> is_numeral (js_split ''::'' s ! 0)))
   \<and> (\<forall>r. decodeColumnId s = Some r \<longrightarrow>
         cboardIndex r = parseInt (js_split ''::'' s ! 0)
         \<and> (cboardIndex r = NaN \<longleftrightarrow> leading_digits (js_split ''::'' s ! 0) = [])
         \<and> (cboardIndex r = NaN \<longrightarrow> \<not> is_numeral (js_split ''::'' s ! 0)))"
proof -
  let ?seg = "js_split ''::'' s ! 0"
  have a: "decodeTaskId s = None \<longleftrightarrow> count_delim s < 2"
    by (simp add: decodeTaskId_None_iff length_js_split)
  have b: "decodeColumnId s = None \<longleftrightarrow> count_delim s = 0"
    by (simp add: decodeColumnId_None_iff length_js_split)
  have c: "decodeTaskId s = Some r \<Longrightarrow>
         boardIndex r = parseInt ?seg
         \<and> (boardIndex r = NaN \<longleftrightarrow> leading_digits ?seg = [])
         \<and> (boardIndex r = NaN \<longrightarrow> \<not> is_numeral ?seg)" for r
    using decodeTaskId_boardIndex[of s r] parseInt_NaN_iff[of ?seg]
      numeral_has_leading_digits[of ?seg] by (auto simp: first_segment)
  have d: "decodeColumnId s = Some r \<Longrightarrow>
         cboardIndex r = parseInt ?seg
         \<and> (cboardIndex r = NaN \<longleftrightarrow> leading_digits ?seg = [])
         \<and> (cboardIndex r = NaN \<longrightarrow> \<not> is_numeral ?seg)" for r
    using decodeColumnId_boardIndex[of s r] parseInt_NaN_iff[of ?seg]
      numeral_has_leading_digits[of ?seg] by (auto simp: first_segment)
  from a b c d decodeTaskId_None_iff decodeColumnId_None_iff show ?thesis by blast
qed

text \<open>
  The claim as stated fails where the first segment is not a numeral but starts with
  one: \<^verbatim>\<open>7up\<close> decodes to board index \<open>7\<close>, so the caller's comparison with the current
  board index does not reject it on board \<open>7\<close>.
\<close>

theorem decoders_total_counterexample:
  "js_split ''::'' ''7up::Todo::X'' ! 0 = ''7up'' \<and> \<not> is_numeral ''7up''
   \<and> map_option boardIndex (decodeTaskId ''7up::Todo::X'') \<noteq> Some NaN
   \<and> decodeTaskId ''7up::Todo::X'' =
       Some \<lparr>boardIndex = Num 7, columnName = ''Todo'', taskTitle = ''X''\<rparr>
   \<and> decodeColumnId ''7up::Todo'' = Some \<lparr>cboardIndex = Num 7, ccolumnName = ''Todo''\<rparr>"
  by (simp add: is_numeral_def decodeTaskId_def decodeColumnId_def slice_from_def parseInt_def
      leading_digits_def is_ws_def is_digit_def digit_val_def digits_value_def digit_num_def)

text \<open>A segment without digits gives \<open>NaN\<close> and no null; two parts are no task reference.\<close>

theorem decoders_total_witness:
  "decodeTaskId ''x::Todo::T'' =
     Some \<lparr>boardIndex = NaN, columnName = ''Todo'', taskTitle = ''T''\<rparr>
   \<and> leading_digits (js_split ''::'' ''x::Todo::T'' ! 0) = []
   \<and> \<not> is_numeral (js_split ''::'' ''x::Todo::T'' ! 0)
   \<and> decodeColumnId ''x::Todo'' = Some \<lparr>cboardIndex = NaN, ccolumnName = ''Todo''\<rparr>
   \<and> decodeTaskId ''0::Todo'' = None \<and> count_delim ''0::Todo'' < 2"
proof -
  have t: "decodeTaskId ''x::Todo::T'' =
     Some \<lparr>boardIndex = NaN, columnName = ''Todo'', taskTitle = ''T''\<rparr>"
    by (simp add: decodeTaskId_def slice_from_def parseInt_def leading_digits_def
        is_ws_def is_digit_def digit_val_def)
  have c: "decodeColumnId ''x::Todo'' = Some \<lparr>cboardIndex = NaN, ccolumnName = ''Todo''\<rparr>"
    by (simp add: decodeColumnId_def parseInt_def leading_digits_def
        is_ws_def is_digit_def digit_val_def)
  have n: "count_delim ''0::Todo'' < 2" by simp
  from decoders_total[of "''x::Todo::T''"] t
  have "leading_digits (js_split ''::'' ''x::Todo::T'' ! 0) = []"
    and "\<not> is_numeral (js_split ''::'' ''x::Todo::T'' ! 0)" by auto
  moreover from decoders_total[of "''0::Todo''"] n have "decodeTaskId ''0::Todo'' = None"
    by blast
  ultimately show ?thesis using t c n by blast
qed

section \<open>Drop resolution\<close>

lemma decodeTask_then_column:
  "decodeTaskId s = Some ot \<Longrightarrow>
     decodeColumnId s = Some \<lparr>cboardIndex = boardIndex ot, ccolumnName = columnName ot\<rparr>"
  by (auto simp: decodeTaskId_def decodeColumnId_def Let_def split: if_splits)

lemma hde_length: "length (handleDragEnd bix brd activeId over) \<le> 1"
  by (auto simp: handleDragEnd_def sameColumnDrop_def Let_def
      split: option.splits if_splits prod.splits)

lemma hde_null:
  "handleDragEnd None brd activeId over = []"
  "handleDragEnd bix None activeId over = []"
  "handleDragEnd bix brd activeId None = []"
  by (auto simp: handleDragEnd_def split: option.splits)

lemma hde_active_bad:
  "decodeTaskId activeId = None \<or>
     (\<exists>a. decodeTaskId activeId = Some a \<and> \<not> js_strict_eq (boardIndex a) bi) \<Longrightarrow>
   handleDragEnd (Some bi) (Some b) activeId (Some overId) = []"
  by (auto simp: handleDragEnd_def split: option.splits)

lemma hde_same_column:
  assumes "decodeTaskId activeId = Some a" "js_strict_eq (boardIndex a) bi"
    and "decodeTaskId overId = Some ot" "js_strict_eq (boardIndex ot) bi"
    and "columnName ot = columnName a"
  shows "handleDragEnd (Some bi) (Some b) activeId (Some overId) =
     (case find (\<lambda>c. name c = columnName a) (columns b) of
        None \<Rightarrow> []
      | Some col \<Rightarrow>
          (let fromIndex = findIndex (\<lambda>t. title t = taskTitle a) (tasks col);
               toIndex = findIndex (\<lambda>t. title t = taskTitle ot) (tasks col)
           in if fromIndex = - 1 \<or> toIndex = - 1 \<or> fromIndex = toIndex then []
              else [REORDER_TASK bi (columnName a) (Num fromIndex) (Num toIndex)]))"
  using assms
  by (auto simp: handleDragEnd_def sameColumnDrop_def Let_def split: option.splits)

lemma hde_other_column:
  assumes "decodeTaskId activeId = Some a" "js_strict_eq (boardIndex a) bi"
    and "decodeTaskId overId = Some ot" "js_strict_eq (boardIndex ot) bi"
    and "columnName ot \<noteq> columnName a"
  shows "handleDragEnd (Some bi) (Some b) activeId (Some overId) =
     (if resolvable b (columnName a) (taskTitle a) \<and> resolvable b (columnName ot) (taskTitle ot)
      then [MOVE_TASK bi (columnName a) (columnName ot) (taskTitle a)] else [])"
  using assms decodeTask_then_column[OF assms(3)]
  by (auto simp: handleDragEnd_def sameColumnDrop_def resolvable_def Let_def
      split: option.splits)

lemma hde_over_other_board:
  assumes "decodeTaskId activeId = Some a" "js_strict_eq (boardIndex a) bi"
    and "decodeTaskId overId = Some ot" "\<not> js_strict_eq (boardIndex ot) bi"
  shows "handleDragEnd (Some bi) (Some b) activeId (Some overId) = []"
  using assms decodeTask_then_column[OF assms(3)]
  by (auto simp: handleDragEnd_def sameColumnDrop_def Let_def split: option.splits)

lemma hde_column:
  assumes "decodeTaskId activeId = Some a" "js_strict_eq (boardIndex a) bi"
    and "decodeTaskId overId = None"
  shows "handleDragEnd (Some bi) (Some b) activeId (Some overId) =
     (case decodeColumnId overId of
        None \<Rightarrow> []
      | Some cd \<Rightarrow>
          if js_strict_eq (cboardIndex cd) bi \<and> ccolumnName cd \<noteq> columnName a
          then [MOVE_TASK bi (columnName a) (ccolumnName cd) (taskTitle a)] else [])"
  using assms
  by (auto simp: handleDragEnd_def sameColumnDrop_def Let_def split: option.splits)

text \<open>
  Claim C7, as amended. For a drag-end event in the current board (the active identifier
  decodes as a task whose board index is the current one):
  if the over identifier decodes as a task of the same board in the same column, the
  handler dispatches \<open>REORDER_TASK\<close> with the two positions found by title lookup in that
  column, and nothing if the column or either title cannot be resolved or the positions
  are equal;
  if it decodes as a task of the same board in another column, the handler dispatches
  \<open>MOVE_TASK\<close> to that column provided that both columns exist on the board and both
  titles resolve in their columns, and nothing otherwise;
  if it does not decode as a task but decodes as a column of the same board other than
  the source column, the handler dispatches \<open>MOVE_TASK\<close> to that column;
  in every other case (no current board, no drop target, a decoding failure, another
  board index, destination equal to source) it dispatches nothing. So at most one action
  is dispatched per event.
\<close>

theorem handleDragEnd_resolution:
  "length (handleDragEnd currentIndex board activeId over) \<le> 1
   \<and> handleDragEnd None board activeId over = []
   \<and> handleDragEnd currentIndex None activeId over = []
   \<and> handleDragEnd currentIndex board activeId None = []
   \<and> (decodeTaskId activeId = None
        \<or> (\<exists>a. decodeTaskId activeId = Some a \<and> \<not> js_strict_eq (boardIndex a) bi)
      \<longrightarrow> handleDragEnd (Some bi) (Some b) activeId (Some overId) = [])
   \<and> (\<forall>a. decodeTaskId activeId = Some a \<and> js_strict_eq (boardIndex a) bi \<longrightarrow>
        handleDragEnd (Some bi) (Some b) activeId (Some overId) =
          (case decodeTaskId overId of
             Some ot \<Rightarrow>
               if \<not> js_strict_eq (boardIndex ot) bi then []
               else if columnName ot = columnName a then
                 (case find (\<lambda>c. name c = columnName a) (columns b) of
                    None \<Rightarrow> []
                  | Some col \<Rightarrow>
                      (let fromIndex = findIndex (\<lambda>t. title t = taskTitle a) (tasks col);
                           toIndex = findIndex (\<lambda>t. title t = taskTitle ot) (tasks col)
                       in if fromIndex = - 1 \<or> toIndex = - 1 \<or> fromIndex = toIndex then []
                          else [REORDER_TASK bi (columnName a) (Num fromIndex) (Num toIndex)]))
               else if resolvable b (columnName a) (taskTitle a)
                       \<and> resolvable b (columnName ot) (taskTitle ot)
                 then [MOVE_TASK bi (columnName a) (columnName ot) (taskTitle a)]
                 else []
           | None \<Rightarrow>
               (case decodeColumnId overId of
                  None \<Rightarrow> []
                | Some cd \<Rightarrow>
                    if js_strict_eq (cboardIndex cd) bi \<and> ccolumnName cd \<noteq> columnName a
                    then [MOVE_TASK bi (columnName a) (ccolumnName cd) (taskTitle a)]
                    else [])))"
proof -
  have main: "handleDragEnd (Some bi) (Some b) activeId (Some overId) =
          (case decodeTaskId overId of
             Some ot \<Rightarrow>
               if \<not> js_strict_eq (boardIndex ot) bi then []
               else if columnName ot = columnName a then
                 (case find (\<lambda>c. name c = columnName a) (columns b) of
                    None \<Rightarrow> []
                  | Some col \<Rightarrow>
                      (let fromIndex = findIndex (\<lambda>t. title t = taskTitle a) (tasks col);
                           toIndex = findIndex (\<lambda>t. title t = taskTitle ot) (tasks col)
                       in if fromIndex = - 1 \<or> toIndex = - 1 \<or> fromIndex = toIndex then []
                          else [REORDER_TASK bi (columnName a) (Num fromIndex) (Num toIndex)]))
               else if resolvable b (columnName a) (taskTitle a)
                       \<and> resolvable b (columnName ot) (taskTitle ot)
                 then [MOVE_TASK bi (columnName a) (columnName ot) (taskTitle a)]
                 else []
           | None \<Rightarrow>
               (case decodeColumnId overId of
                  None \<Rightarrow> []
                | Some cd \<Rightarrow>
                    if js_strict_eq (cboardIndex cd) bi \<and> ccolumnName cd \<noteq> columnName a
                    then [MOVE_TASK bi (columnName a) (ccolumnName cd) (taskTitle a)]
                    else []))"
    if a: "decodeTaskId activeId = Some a" "js_strict_eq (boardIndex a) bi" for a
  proof (cases "decodeTaskId overId")
    case None
    with hde_column[OF a None] show ?thesis by simp
  next
    case (Some ot)
    show ?thesis
    proof (cases "js_strict_eq (boardIndex ot) bi")
      case False
      with hde_over_other_board[OF a Some False] Some show ?thesis by simp
    next
      case True
      show ?thesis
      proof (cases "columnName ot = columnName a")
        case same: True
        with hde_same_column[OF a Some True same] Some True show ?thesis by simp
      next
        case other: False
        with hde_other_column[OF a Some True other] Some True show ?thesis by simp
      qed
    qed
  qed
  show ?thesis
    using hde_length[of currentIndex board activeId over] hde_null
      hde_active_bad[of activeId bi b overId] main
    by blast
qed

text \<open>
  The claim as stated fails for a drop on a task card of another column whose title is
  not in that column of the store: the claim has \<open>MOVE_TASK\<close> dispatched, the handler
  returns before it reaches the column-level code.
\<close>

theorem handleDragEnd_resolution_counterexample:
  "decodeTaskId ''0::Todo::X'' =
     Some \<lparr>boardIndex = Num 0, columnName = ''Todo'', taskTitle = ''X''\<rparr>
   \<and> decodeTaskId ''0::Done::Ghost'' =
     Some \<lparr>boardIndex = Num 0, columnName = ''Done'', taskTitle = ''Ghost''\<rparr>
   \<and> handleDragEnd (Some (Num 0)) (Some sample_board) ''0::Todo::X'' (Some ''0::Done::Ghost'')
       \<noteq> [MOVE_TASK (Num 0) ''Todo'' ''Done'' ''X'']
   \<and> handleDragEnd (Some (Num 0)) (Some sample_board) ''0::Todo::X'' (Some ''0::Done::Ghost'')
       = []"
  by (simp add: handleDragEnd_def sameColumnDrop_def codec_eval sample_eval)

text \<open>A reorder, two moves and a rejected board index on the sample board.\<close>

theorem handleDragEnd_resolution_witness:
  "handleDragEnd (Some (Num 0)) (Some sample_board) ''0::Todo::X'' (Some ''0::Todo::Y'')
     = [REORDER_TASK (Num 0) ''Todo'' (Num 0) (Num 1)]
   \<and> handleDragEnd (Some (Num 0)) (Some sample_board) ''0::Todo::X'' (Some ''0::Done::Z'')
     = [MOVE_TASK (Num 0) ''Todo'' ''Done'' ''X'']
   \<and> handleDragEnd (Some (Num 0)) (Some sample_board) ''0::Todo::X'' (Some ''0::Done'')
     = [MOVE_TASK (Num 0) ''Todo'' ''Done'' ''X'']
   \<and> handleDragEnd (Some (Num 0)) (Some sample_board) ''1::Todo::X'' (Some ''0::Done'') = []"
proof -
  have a: "decodeTaskId ''0::Todo::X'' =
      Some \<lparr>boardIndex = Num 0, columnName = ''Todo'', taskTitle = ''X''\<rparr>"
    by (simp add: codec_eval)
  have eq: "js_strict_eq (boardIndex \<lparr>boardIndex = Num 0, columnName = ''Todo'', taskTitle = ''X''\<rparr>) (Num 0)"
    by simp
  have o1: "decodeTaskId ''0::Todo::Y'' =
      Some \<lparr>boardIndex = Num 0, columnName = ''Todo'', taskTitle = ''Y''\<rparr>"
    by (simp add: codec_eval)
  have o2: "decodeTaskId ''0::Done::Z'' =
      Some \<lparr>boardIndex = Num 0, columnName = ''Done'', taskTitle = ''Z''\<rparr>"
    by (simp add: codec_eval)
  have o3: "decodeTaskId ''0::Done'' = None"
    and c3: "decodeColumnId ''0::Done'' = Some \<lparr>cboardIndex = Num 0, ccolumnName = ''Done''\<rparr>"
    by (simp_all add: codec_eval)
  have b: "decodeTaskId ''1::Todo::X'' =
      Some \<lparr>boardIndex = Num 1, columnName = ''Todo'', taskTitle = ''X''\<rparr>"
    by (simp add: codec_eval)
  have r1: "handleDragEnd (Some (Num 0)) (Some sample_board) ''0::Todo::X'' (Some ''0::Todo::Y'')
     = [REORDER_TASK (Num 0) ''Todo'' (Num 0) (Num 1)]"
    using handleDragEnd_resolution[of None None "''0::Todo::X''" None "Num 0" sample_board
        "''0::Todo::Y''"] a eq
    by (simp add: o1 sample_eval)
  have r2: "handleDragEnd (Some (Num 0)) (Some sample_board) ''0::Todo::X'' (Some ''0::Done::Z'')
     = [MOVE_TASK (Num 0) ''Todo'' ''Done'' ''X'']"
    using handleDragEnd_resolution[of None None "''0::Todo::X''" None "Num 0" sample_board
        "''0::Done::Z''"] a eq
    by (simp add: o2 sample_eval)
  have r3: "handleDragEnd (Some (Num 0)) (Some sample_board) ''0::Todo::X'' (Some ''0::Done'')
     = [MOVE_TASK (Num 0) ''Todo'' ''Done'' ''X'']"
    using handleDragEnd_resolution[of None None "''0::Todo::X''" None "Num 0" sample_board
        "''0::Done''"] a eq
    by (simp add: o3 c3)
  have r4: "handleDragEnd (Some (Num 0)) (Some sample_board) ''1::Todo::X'' (Some ''0::Done'') = []"
    using handleDragEnd_resolution[of None None "''1::Todo::X''" None "Num 0" sample_board
        "''0::Done''"] b
    by simp
  from r1 r2 r3 r4 show ?thesis by blast
qed

section \<open>The id compatibility pass\<close>

lemma generateTaskId_nonempty: "generateTaskId reading \<noteq> []"
  by (simp add: generateTaskId_def)

lemma map_counting_rel:
  "(\<And>k x. x \<in> set xs \<Longrightarrow> R x (fst (f k x))) \<Longrightarrow>
     list_all2 R xs (fst (map_counting f k xs))"
proof (induction xs arbitrary: k)
  case Nil
  show ?case by simp
next
  case (Cons a xs)
  obtain y k' where f: "f k a = (y, k')" by (cases "f k a")
  obtain ys k'' where m: "map_counting f k' xs = (ys, k'')" by (cases "map_counting f k' xs")
  have "R a y" using Cons.prems[of a k] f by simp
  moreover have "list_all2 R xs ys" using Cons.IH[of k'] Cons.prems m by simp
  ultimately show ?case using f m by simp
qed

lemma ensureTaskId_kept: "task_kept r (fst (ensureTaskId env k r))"
  by (auto simp: task_kept_def ensureTaskId_def generateTaskId_nonempty split: option.splits)

lemma ensureColumnIds_kept: "column_kept r (fst (ensureColumnIds env k r))"
  using map_counting_rel[of "tasks_raw r" task_kept "ensureTaskId env" k]
  by (auto simp: column_kept_def ensureColumnIds_def ensureTaskId_kept split: prod.splits)

lemma ensureBoardIds_kept: "board_kept r (fst (ensureBoardIds env k r))"
  using map_counting_rel[of "columns_raw r" column_kept "ensureColumnIds env" k]
  by (auto simp: board_kept_def ensureBoardIds_def ensureColumnIds_kept split: prod.splits)

lemma ensureTaskIds_kept: "list_all2 board_kept bs (ensureTaskIds env bs)"
  unfolding ensureTaskIds_def by (rule map_counting_rel) (rule ensureBoardIds_kept)

lemma map_counting_fixed:
  "(\<And>k y. y \<in> set ys \<Longrightarrow> f k (g y) = (y, k)) \<Longrightarrow>
     map_counting f k (map g ys) = (ys, k)"
  by (induction ys arbitrary: k) auto

lemma ensureTaskId_fixed: "id_task t \<noteq> [] \<Longrightarrow> ensureTaskId env k (rawTask t) = (t, k)"
  by (simp add: ensureTaskId_def rawTask_def)

lemma ensureColumnIds_fixed:
  "\<forall>t \<in> set (tasks c). id_task t \<noteq> [] \<Longrightarrow> ensureColumnIds env k (rawColumn c) = (c, k)"
  using map_counting_fixed[of "tasks c" "ensureTaskId env" rawTask k]
  by (simp add: ensureColumnIds_def rawColumn_def ensureTaskId_fixed)

lemma ensureBoardIds_fixed:
  "\<forall>c \<in> set (columns b). \<forall>t \<in> set (tasks c). id_task t \<noteq> [] \<Longrightarrow>
     ensureBoardIds env k (rawBoard b) = (b, k)"
  using map_counting_fixed[of "columns b" "ensureColumnIds env" rawColumn k]
  by (simp add: ensureBoardIds_def rawBoard_def ensureColumnIds_fixed)

lemma kept_ids_tasks: "list_all2 task_kept rs ts \<Longrightarrow> \<forall>t \<in> set ts. id_task t \<noteq> []"
  by (induction rule: list_all2_induct) (auto simp: task_kept_def)

lemma kept_ids_columns:
  "list_all2 column_kept rs cs \<Longrightarrow> \<forall>c \<in> set cs. \<forall>t \<in> set (tasks c). id_task t \<noteq> []"
  by (induction rule: list_all2_induct) (auto simp: column_kept_def dest: kept_ids_tasks)

lemma kept_ids_boards:
  "list_all2 board_kept rs bs \<Longrightarrow>
     \<forall>b \<in> set bs. \<forall>c \<in> set (columns b). \<forall>t \<in> set (tasks c). id_task t \<noteq> []"
  by (induction rule: list_all2_induct) (auto simp: board_kept_def dest: kept_ids_columns)

lemma ensureTaskIds_fixed:
  assumes "\<forall>b \<in> set bs. \<forall>c \<in> set (columns b). \<forall>t \<in> set (tasks c). id_task t \<noteq> []"
  shows "ensureTaskIds env (map rawBoard bs) = bs"
  using map_counting_fixed[of bs "ensureBoardIds env" rawBoard 0] assms
  by (simp add: ensureTaskIds_def ensureBoardIds_fixed)

text \<open>
  Claim C8. The compatibility pass is idempotent and order-preserving. For every raw board
  list and every behaviour of the clock and the random generator: applying the pass to its
  own output, with whatever generator, gives that output again (no id is generated a
  second time); the output has the boards, columns and tasks of the input, in the same
  number and order, with every field other than the id unchanged, every id of the output
  is non-empty, and an id that was present and non-empty in the input is kept.
\<close>

theorem ensureTaskIds_idempotent:
  "ensureTaskIds env' (map rawBoard (ensureTaskIds env bs)) = ensureTaskIds env bs
   \<and> list_all2 board_kept bs (ensureTaskIds env bs)
   \<and> length (ensureTaskIds env bs) = length bs"
  using ensureTaskIds_fixed[OF kept_ids_boards[OF ensureTaskIds_kept[of bs env]], of env']
    ensureTaskIds_kept[of bs env] list_all2_lengthD[OF ensureTaskIds_kept[of bs env]]
  by simp

lemmas ensure_eval =
  ensureTaskIds_def ensureBoardIds_def ensureColumnIds_def ensureTaskId_def
  generateTaskId_def sample_raw_boards_def sample_env_def number_to_string_safe
  digits_of.simps digit_char_def

text \<open>
  The pass on a column of three raw tasks: one without id, one with an id, one with the
  empty id (which is falsy, so an id is generated for it as well).
\<close>

theorem ensureTaskIds_idempotent_witness:
  "ensureTaskIds sample_env sample_raw_boards =
     [\<lparr>name_board = ''Board'', columns =
        [\<lparr>name = ''Todo'', tasks =
            [\<lparr>id_task = ''task-40-abc'', title = ''X'', description = None,
              status = Some ''Todo'', subtasks = None\<rparr>,
             \<lparr>id_task = ''task-7'', title = ''Y'', description = None,
              status = Some ''Todo'', subtasks = None\<rparr>,
             \<lparr>id_task = ''task-41-abc'', title = ''Z'', description = None,
              status = Some ''Todo'', subtasks = None\<rparr>]\<rparr>]\<rparr>]
   \<and> ensureTaskIds (\<lambda>k. (0, [])) (map rawBoard (ensureTaskIds sample_env sample_raw_boards)) =
       ensureTaskIds sample_env sample_raw_boards
   \<and> length (ensureTaskIds sample_env sample_raw_boards) = 1"
proof -
  have ev: "ensureTaskIds sample_env sample_raw_boards =
     [\<lparr>name_board = ''Board'', columns =
        [\<lparr>name = ''Todo'', tasks =
            [\<lparr>id_task = ''task-40-abc'', title = ''X'', description = None,
              status = Some ''Todo'', subtasks = None\<rparr>,
             \<lparr>id_task = ''task-7'', title = ''Y'', description = None,
              status = Some ''Todo'', subtasks = None\<rparr>,
             \<lparr>id_task = ''task-41-abc'', title = ''Z'', description = None,
              status = Some ''Todo'', subtasks = None\<rparr>]\<rparr>]\<rparr>]"
    by (simp add: ensure_eval)
  have len: "length sample_raw_boards = 1" by (simp add: sample_raw_boards_def)
  from ensureTaskIds_idempotent[of "\<lambda>k. (0, [])" sample_env sample_raw_boards] ev len
  show ?thesis by simp
qed

section \<open>The action reducer\<close>

lemma find_SomeD: "find P xs = Some x \<Longrightarrow> P x \<and> x \<in> set xs"
  by (induction xs) (auto split: if_splits)

lemma find_None_iff_all: "find P xs = None \<longleftrightarrow> (\<forall>x \<in> set xs. \<not> P x)"
  by (induction xs) auto

lemma find_replace_first_same:
  "find P xs = Some x \<Longrightarrow> P y \<Longrightarrow> find P (replace_first P y xs) = Some y"
  by (induction xs) (auto split: if_splits)

lemma find_replace_first_other:
  "find P xs = Some x \<Longrightarrow> \<not> Q x \<Longrightarrow> \<not> Q y \<Longrightarrow> find Q (replace_first P y xs) = find Q xs"
  by (induction xs) (auto split: if_splits)

lemma map_replace_first:
  "find P xs = Some x \<Longrightarrow> f y = f x \<Longrightarrow> map f (replace_first P y xs) = map f xs"
  by (induction xs) (auto split: if_splits)

lemma sum_replace_first:
  "find P xs = Some x \<Longrightarrow>
     sum_list (map f (replace_first P y xs)) + f x = sum_list (map f xs) + (f y :: nat)"
  by (induction xs) (auto split: if_splits)

lemma remove_first_split:
  "find P xs = Some x \<Longrightarrow>
     \<exists>ys zs. xs = ys @ x # zs \<and> (\<forall>y \<in> set ys. \<not> P y) \<and> remove_first P xs = ys @ zs"
proof (induction xs)
  case Nil
  then show ?case by simp
next
  case (Cons a xs)
  show ?case
  proof (cases "P a")
    case True
    with Cons.prems have "a = x" by simp
    with True have "a # xs = [] @ x # xs \<and> (\<forall>y \<in> set []. \<not> P y)
        \<and> remove_first P (a # xs) = [] @ xs" by simp
    then show ?thesis by blast
  next
    case False
    with Cons.prems have "find P xs = Some x" by simp
    from Cons.IH[OF this] obtain ys zs where
      "xs = ys @ x # zs" "\<forall>y \<in> set ys. \<not> P y" "remove_first P xs = ys @ zs" by blast
    with False have "a # xs = (a # ys) @ x # zs \<and> (\<forall>y \<in> set (a # ys). \<not> P y)
        \<and> remove_first P (a # xs) = (a # ys) @ zs" by simp
    then show ?thesis by blast
  qed
qed

lemma length_remove_first: "find P xs = Some x \<Longrightarrow> Suc (length (remove_first P xs)) = length xs"
  by (induction xs) (auto split: if_splits)

lemma valid_index_SomeD: "valid_index xs n = Some k \<Longrightarrow> k < length xs \<and> n = Num (int k)"
  by (auto simp: valid_index_def split: jsnum.splits if_splits)

lemma valid_index_nat: "k < length xs \<Longrightarrow> valid_index xs (Num (int k)) = Some k"
  by (simp add: valid_index_def)

lemma MOVE_TASK_step:
  assumes k: "valid_index (boards st) bi = Some k"
    and f: "find (\<lambda>c. name c = fromColumn) (columns (boards st ! k)) = Some fromCol"
    and t: "find (\<lambda>t. title t = ttl) (tasks fromCol) = Some task"
    and c: "find (\<lambda>c. name c = toColumn) (columns (boards st ! k)) = Some toCol"
    and ne: "fromColumn \<noteq> toColumn"
  shows "boards (boardsReducer st (MOVE_TASK bi fromColumn toColumn ttl)) =
    (boards st)[k := (boards st ! k)\<lparr>columns :=
       replace_first (\<lambda>c. name c = toColumn)
         (toCol\<lparr>tasks := tasks toCol @ [task\<lparr>status := Some toColumn\<rparr>]\<rparr>)
         (replace_first (\<lambda>c. name c = fromColumn)
            (fromCol\<lparr>tasks := remove_first (\<lambda>t. title t = ttl) (tasks fromCol)\<rparr>)
            (columns (boards st ! k)))\<rparr>]"
  using assms by (simp add: boardsReducer_def Let_def)

lemma MOVE_TASK_columns:
  assumes k: "valid_index (boards st) bi = Some k"
    and f: "find (\<lambda>c. name c = fromColumn) (columns (boards st ! k)) = Some fromCol"
    and t: "find (\<lambda>t. title t = ttl) (tasks fromCol) = Some task"
    and c: "find (\<lambda>c. name c = toColumn) (columns (boards st ! k)) = Some toCol"
    and ne: "fromColumn \<noteq> toColumn"
  defines "b' \<equiv> boards (boardsReducer st (MOVE_TASK bi fromColumn toColumn ttl)) ! k"
  shows "find (\<lambda>c. name c = fromColumn) (columns b') =
           Some (fromCol\<lparr>tasks := remove_first (\<lambda>t. title t = ttl) (tasks fromCol)\<rparr>)"
    and "find (\<lambda>c. name c = toColumn) (columns b') =
           Some (toCol\<lparr>tasks := tasks toCol @ [task\<lparr>status := Some toColumn\<rparr>]\<rparr>)"
    and "total_tasks b' = total_tasks (boards st ! k)"
    and "map name (columns b') = map name (columns (boards st ! k))"
    and "name_board b' = name_board (boards st ! k)"
proof -
  let ?cols = "columns (boards st ! k)"
  let ?fc = "fromCol\<lparr>tasks := remove_first (\<lambda>t. title t = ttl) (tasks fromCol)\<rparr>"
  let ?tc = "toCol\<lparr>tasks := tasks toCol @ [task\<lparr>status := Some toColumn\<rparr>]\<rparr>"
  let ?cols1 = "replace_first (\<lambda>c. name c = fromColumn) ?fc ?cols"
  let ?cols2 = "replace_first (\<lambda>c. name c = toColumn) ?tc ?cols1"
  have klen: "k < length (boards st)" using valid_index_SomeD[OF k] by simp
  have b': "b' = (boards st ! k)\<lparr>columns := ?cols2\<rparr>"
    unfolding b'_def MOVE_TASK_step[OF k f t c ne] using klen by simp
  have nf: "name fromCol = fromColumn" and nt: "name toCol = toColumn"
    using find_SomeD[OF f] find_SomeD[OF c] by simp_all
  have f1: "find (\<lambda>c. name c = fromColumn) ?cols1 = Some ?fc"
    using find_replace_first_same[OF f, of ?fc] nf by simp
  have c1: "find (\<lambda>c. name c = toColumn) ?cols1 = Some toCol"
    using find_replace_first_other[OF f, of "\<lambda>c. name c = toColumn" ?fc] nf ne c by simp
  have c2: "find (\<lambda>c. name c = toColumn) ?cols2 = Some ?tc"
    using find_replace_first_same[OF c1, of ?tc] nt by simp
  have f2: "find (\<lambda>c. name c = fromColumn) ?cols2 = Some ?fc"
    using find_replace_first_other[OF c1, of "\<lambda>c. name c = fromColumn" ?tc] nt ne f1 by simp
  show "find (\<lambda>c. name c = fromColumn) (columns b') = Some ?fc" using f2 b' by simp
  show "find (\<lambda>c. name c = toColumn) (columns b') = Some ?tc" using c2 b' by simp
  have s1: "sum_list (map (\<lambda>c. length (tasks c)) ?cols1) + length (tasks fromCol) =
            sum_list (map (\<lambda>c. length (tasks c)) ?cols) + length (tasks ?fc)"
    by (rule sum_replace_first[OF f])
  have s2: "sum_list (map (\<lambda>c. length (tasks c)) ?cols2) + length (tasks toCol) =
            sum_list (map (\<lambda>c. length (tasks c)) ?cols1) + length (tasks ?tc)"
    by (rule sum_replace_first[OF c1])
  have l: "Suc (length (tasks ?fc)) = length (tasks fromCol)"
    using length_remove_first[OF t] by simp
  have "sum_list (map (\<lambda>c. length (tasks c)) ?cols2) =
        sum_list (map (\<lambda>c. length (tasks c)) ?cols)"
    using s1 s2 l by simp
  then show "total_tasks b' = total_tasks (boards st ! k)"
    using b' by (simp add: total_tasks_def)
  have "map name ?cols1 = map name ?cols"
    using map_replace_first[OF f, of name ?fc] nf by simp
  moreover have "map name ?cols2 = map name ?cols1"
    using map_replace_first[OF c1, of name ?tc] nt by simp
  ultimately show "map name (columns b') = map name (columns (boards st ! k))"
    using b' by simp
  show "name_board b' = name_board (boards st ! k)" using b' by simp
qed

lemma MOVE_TASK_same_column: "boardsReducer st (MOVE_TASK bi col col ttl) = st"
  by (simp add: boardsReducer_def)

lemma MOVE_TASK_no_task:
  assumes "\<forall>k fromCol. valid_index (boards st) bi = Some k
             \<and> find (\<lambda>c. name c = fromColumn) (columns (boards st ! k)) = Some fromCol
           \<longrightarrow> (\<forall>t \<in> set (tasks fromCol). title t \<noteq> ttl)"
  shows "boardsReducer st (MOVE_TASK bi fromColumn toColumn ttl) = st"
proof -
  have "find (\<lambda>t. title t = ttl) (tasks fromCol) = None"
    if "valid_index (boards st) bi = Some k"
      "find (\<lambda>c. name c = fromColumn) (columns (boards st ! k)) = Some fromCol" for k fromCol
    using assms that by (simp add: find_None_iff_all)
  then show ?thesis
    by (auto simp: boardsReducer_def Let_def split: option.splits)
qed

lemma MOVE_TASK_no_target:
  assumes "valid_index (boards st) bi = Some k"
    and "find (\<lambda>c. name c = toColumn) (columns (boards st ! k)) = None"
  shows "boardsReducer st (MOVE_TASK bi fromColumn toColumn ttl) = st"
  using assms by (auto simp: boardsReducer_def Let_def split: option.splits)

text \<open>
  Claim C1, as amended, on the reducer as modelled from the specification. Take any boards
  state in which \<open>boardIndex\<close> names a board that has a column \<open>fromColumn\<close> holding a task
  titled \<open>taskTitle\<close>, and let \<open>toColumn\<close> differ from \<open>fromColumn\<close> (lookups take the
  first match). If \<open>toColumn\<close> names a column of that board, reducing with \<open>MOVE_TASK\<close>
  removes from \<open>fromColumn\<close> the first task with that title (every task before it has
  another title) and appends that task to the end of the task list of \<open>toColumn\<close> with its
  status set to the name \<open>toColumn\<close>. In any case it leaves unchanged the number of tasks
  of the board, summed over its columns, as well as the names and the order of the
  columns. When \<open>fromColumn\<close> equals \<open>toColumn\<close>, or no task of \<open>fromColumn\<close> has the title,
  the state is returned unchanged.
\<close>

theorem MOVE_TASK_moves:
  "(let st' = boardsReducer st (MOVE_TASK bi fromColumn toColumn ttl) in
    (valid_index (boards st) bi = Some k
      \<and> find (\<lambda>c. name c = fromColumn) (columns (boards st ! k)) = Some fromCol
      \<and> find (\<lambda>t. title t = ttl) (tasks fromCol) = Some task
      \<and> fromColumn \<noteq> toColumn
     \<longrightarrow>
       total_tasks (boards st' ! k) = total_tasks (boards st ! k)
       \<and> map name (columns (boards st' ! k)) = map name (columns (boards st ! k))
       \<and> (\<forall>toCol. find (\<lambda>c. name c = toColumn) (columns (boards st ! k)) = Some toCol \<longrightarrow>
            (\<exists>ys zs. tasks fromCol = ys @ task # zs \<and> (\<forall>y \<in> set ys. title y \<noteq> ttl)
               \<and> find (\<lambda>c. name c = fromColumn) (columns (boards st' ! k)) =
                   Some (fromCol\<lparr>tasks := ys @ zs\<rparr>))
            \<and> find (\<lambda>c. name c = toColumn) (columns (boards st' ! k)) =
                Some (toCol\<lparr>tasks := tasks toCol @ [task\<lparr>status := Some toColumn\<rparr>]\<rparr>)))
    \<and> (fromColumn = toColumn \<longrightarrow> st' = st)
    \<and> ((\<forall>k fromCol. valid_index (boards st) bi = Some k
            \<and> find (\<lambda>c. name c = fromColumn) (columns (boards st ! k)) = Some fromCol
          \<longrightarrow> (\<forall>t \<in> set (tasks fromCol). title t \<noteq> ttl))
        \<longrightarrow> st' = st))"
proof -
  let ?st' = "boardsReducer st (MOVE_TASK bi fromColumn toColumn ttl)"
  have moved:
    "(\<exists>ys zs. tasks fromCol = ys @ task # zs \<and> (\<forall>y \<in> set ys. title y \<noteq> ttl)
          \<and> find (\<lambda>c. name c = fromColumn) (columns (boards ?st' ! k)) =
              Some (fromCol\<lparr>tasks := ys @ zs\<rparr>))
       \<and> find (\<lambda>c. name c = toColumn) (columns (boards ?st' ! k)) =
           Some (toCol\<lparr>tasks := tasks toCol @ [task\<lparr>status := Some toColumn\<rparr>]\<rparr>)"
    if h: "valid_index (boards st) bi = Some k"
      "find (\<lambda>c. name c = fromColumn) (columns (boards st ! k)) = Some fromCol"
      "find (\<lambda>t. title t = ttl) (tasks fromCol) = Some task"
      "find (\<lambda>c. name c = toColumn) (columns (boards st ! k)) = Some toCol"
      "fromColumn \<noteq> toColumn" for toCol
  proof -
    from remove_first_split[OF h(3)] obtain ys zs where
      yz: "tasks fromCol = ys @ task # zs" "\<forall>y \<in> set ys. title y \<noteq> ttl"
        "remove_first (\<lambda>t. title t = ttl) (tasks fromCol) = ys @ zs" by blast
    have "find (\<lambda>c. name c = fromColumn) (columns (boards ?st' ! k)) =
        Some (fromCol\<lparr>tasks := ys @ zs\<rparr>)"
      using MOVE_TASK_columns(1)[OF h] yz(3) by simp
    with yz(1,2) MOVE_TASK_columns(2)[OF h] show ?thesis by blast
  qed
  have kept: "total_tasks (boards ?st' ! k) = total_tasks (boards st ! k)
       \<and> map name (columns (boards ?st' ! k)) = map name (columns (boards st ! k))"
    if h: "valid_index (boards st) bi = Some k"
      "find (\<lambda>c. name c = fromColumn) (columns (boards st ! k)) = Some fromCol"
      "find (\<lambda>t. title t = ttl) (tasks fromCol) = Some task"
      "fromColumn \<noteq> toColumn"
  proof (cases "find (\<lambda>c. name c = toColumn) (columns (boards st ! k))")
    case None
    with MOVE_TASK_no_target[OF h(1) None] show ?thesis by simp
  next
    case (Some toCol)
    with MOVE_TASK_columns(3,4)[OF h(1,2,3) Some h(4)] show ?thesis by simp
  qed
  have same: "fromColumn = toColumn \<Longrightarrow> ?st' = st"
    using MOVE_TASK_same_column by simp
  have none: "(\<forall>k fromCol. valid_index (boards st) bi = Some k
            \<and> find (\<lambda>c. name c = fromColumn) (columns (boards st ! k)) = Some fromCol
          \<longrightarrow> (\<forall>t \<in> set (tasks fromCol). title t \<noteq> ttl)) \<Longrightarrow> ?st' = st"
    by (rule MOVE_TASK_no_task)
  from moved kept same none show ?thesis unfolding Let_def by blast
qed

lemma splice_move_eq:
  "i < length xs \<Longrightarrow>
     splice_move i j xs =
       take j (take i xs @ drop (Suc i) xs) @ [xs ! i] @ drop j (take i xs @ drop (Suc i) xs)"
  by (simp add: splice_move_def splice_out_def splice_in_def take_Suc_conv_app_nth
      Cons_nth_drop_Suc[symmetric])

lemma mset_remove_nth:
  "i < length xs \<Longrightarrow> mset (take i xs @ drop (Suc i) xs) + {#xs ! i#} = mset xs"
proof -
  assume "i < length xs"
  then have "xs = take i xs @ xs ! i # drop (Suc i) xs" by (rule id_take_nth_drop)
  then have "mset xs = mset (take i xs @ xs ! i # drop (Suc i) xs)" by simp
  then show ?thesis by simp
qed

lemma mset_insert_at: "mset (take j ys @ [x] @ drop j ys) = mset ys + {#x#}"
proof -
  have "mset (take j ys @ drop j ys) = mset ys" by simp
  then show ?thesis by (simp del: append_take_drop_id)
qed

lemma mset_splice_move: "i < length xs \<Longrightarrow> mset (splice_move i j xs) = mset xs"
  using mset_remove_nth[of i xs] mset_insert_at[of j "take i xs @ drop (Suc i) xs" "xs ! i"]
  by (simp only: splice_move_eq)

lemma nth_insert_at: "j \<le> length ys \<Longrightarrow> (take j ys @ [x] @ drop j ys) ! j = x"
  by (simp add: nth_append)

lemma nth_splice_move:
  assumes "i < length xs" and "j < length xs"
  shows "splice_move i j xs ! j = xs ! i"
proof -
  have "length (take i xs @ drop (Suc i) xs) = length xs - 1" using assms(1) by simp
  with assms(2) have "j \<le> length (take i xs @ drop (Suc i) xs)" by simp
  then show ?thesis
    unfolding splice_move_eq[OF assms(1)] by (rule nth_insert_at)
qed

lemma mset_map_splice_move:
  "i < length xs \<Longrightarrow> mset (map f (splice_move i j xs)) = mset (map f xs)"
proof -
  assume "i < length xs"
  then have "image_mset f (mset (splice_move i j xs)) = image_mset f (mset xs)"
    by (simp only: mset_splice_move)
  then show ?thesis by (simp only: mset_map)
qed

lemma REORDER_TASK_step:
  assumes k: "valid_index (boards st) bi = Some k"
    and c: "find (\<lambda>c. name c = col) (columns (boards st ! k)) = Some c"
    and i: "i < length (tasks c)" and j: "j < length (tasks c)" and ne: "i \<noteq> j"
  shows "find (\<lambda>c. name c = col)
           (columns (boards (boardsReducer st (REORDER_TASK bi col (Num (int i)) (Num (int j)))) ! k))
         = Some (c\<lparr>tasks := splice_move i j (tasks c)\<rparr>)"
proof -
  have klen: "k < length (boards st)" using valid_index_SomeD[OF k] by simp
  have n: "name c = col" using find_SomeD[OF c] by simp
  have "boards (boardsReducer st (REORDER_TASK bi col (Num (int i)) (Num (int j)))) =
      (boards st)[k := (boards st ! k)\<lparr>columns :=
         replace_first (\<lambda>c. name c = col) (c\<lparr>tasks := splice_move i j (tasks c)\<rparr>)
           (columns (boards st ! k))\<rparr>]"
    using k c i j ne
    by (simp add: boardsReducer_def on_column_def Let_def valid_index_nat)
  then show ?thesis
    using klen find_replace_first_same[OF c, of "c\<lparr>tasks := splice_move i j (tasks c)\<rparr>"] n
    by simp
qed

lemma REORDER_TASK_same_index: "boardsReducer st (REORDER_TASK bi col n n) = st"
  by (cases n)
    (auto simp: boardsReducer_def on_column_def valid_index_def Let_def split: option.splits)

text \<open>
  Claim C2, on the reducer as modelled from the specification. Take any boards state in
  which \<open>boardIndex\<close> names a board with a column \<open>columnName\<close>, and two different valid
  positions \<open>i\<close> and \<open>j\<close> of its task list. Reducing with \<open>REORDER_TASK\<close> from \<open>i\<close> to
  \<open>j\<close> gives the list obtained by removing the element at \<open>i\<close> and inserting it at
  position \<open>j\<close> of the shorter list; this is a permutation of the original (the same
  multiset of tasks, hence of titles), and the moved task ends at position \<open>j\<close>. When the
  two indices are the same number, the state is returned unchanged.
\<close>

theorem REORDER_TASK_permutes:
  "(valid_index (boards st) bi = Some k
      \<and> find (\<lambda>c. name c = col) (columns (boards st ! k)) = Some c
      \<and> i < length (tasks c) \<and> j < length (tasks c) \<and> i \<noteq> j
    \<longrightarrow>
      (let st' = boardsReducer st (REORDER_TASK bi col (Num (int i)) (Num (int j)));
           rest = take i (tasks c) @ drop (Suc i) (tasks c);
           ts' = take j rest @ [tasks c ! i] @ drop j rest
       in find (\<lambda>c. name c = col) (columns (boards st' ! k)) = Some (c\<lparr>tasks := ts'\<rparr>)
          \<and> mset ts' = mset (tasks c)
          \<and> mset (map title ts') = mset (map title (tasks c))
          \<and> ts' ! j = tasks c ! i))
   \<and> boardsReducer st (REORDER_TASK bi col n n) = st"
proof -
  have moved:
    "let st' = boardsReducer st (REORDER_TASK bi col (Num (int i)) (Num (int j)));
         rest = take i (tasks c) @ drop (Suc i) (tasks c);
         ts' = take j rest @ [tasks c ! i] @ drop j rest
     in find (\<lambda>c. name c = col) (columns (boards st' ! k)) = Some (c\<lparr>tasks := ts'\<rparr>)
        \<and> mset ts' = mset (tasks c)
        \<and> mset (map title ts') = mset (map title (tasks c))
        \<and> ts' ! j = tasks c ! i"
    if h: "valid_index (boards st) bi = Some k"
      "find (\<lambda>c. name c = col) (columns (boards st ! k)) = Some c"
      "i < length (tasks c)" "j < length (tasks c)" "i \<noteq> j"
    unfolding Let_def splice_move_eq[OF h(3), of j, symmetric]
    using REORDER_TASK_step[OF h] mset_splice_move[OF h(3), of j]
      mset_map_splice_move[OF h(3), of title j] nth_splice_move[OF h(3,4)] by blast
  from moved REORDER_TASK_same_index[of st bi col n] show ?thesis by blast
qed

lemmas reducer_eval =
  boardsReducer_def on_column_def valid_index_def splice_move_def splice_out_def splice_in_def
  move_fixture_def reorder_fixture_def sample_task_def total_tasks_def

text \<open>The two tests of the repository pass on the modelled reducer.\<close>

lemma test_handles_MOVE_TASK:
  "boardsReducer move_fixture (MOVE_TASK (Num 0) ''Todo'' ''Done'' ''Move Me'') =
     \<lparr>boards = [\<lparr>name_board = ''Board'', columns =
        [\<lparr>name = ''Todo'', tasks = []\<rparr>,
         \<lparr>name = ''Done'', tasks = [sample_task ''task-1'' ''Move Me'' ''Done'']\<rparr>]\<rparr>]\<rparr>"
  by (simp add: reducer_eval)

lemma test_handles_REORDER_TASK:
  "boardsReducer reorder_fixture (REORDER_TASK (Num 0) ''Todo'' (Num 0) (Num 1)) =
     \<lparr>boards = [\<lparr>name_board = ''Board'', columns =
        [\<lparr>name = ''Todo'', tasks = [sample_task ''task-2'' ''Task 2'' ''Todo'',
                                     sample_task ''task-1'' ''Task 1'' ''Todo'']\<rparr>]\<rparr>]\<rparr>"
  by (simp add: reducer_eval)

text \<open>
  The other tests of the repository's reducer test file, on the modelled reducer: each
  states what the test expects of the new state.
\<close>

lemma test_handles_boards:
  "boards (boardsReducer \<lparr>boards = []\<rparr> (ADD_BOARD \<lparr>name_board = ''New Board'', columns = []\<rparr>))
     = [\<lparr>name_board = ''New Board'', columns = []\<rparr>]"
  "name_board (boards (boardsReducer \<lparr>boards = [\<lparr>name_board = ''Old Board'', columns = []\<rparr>]\<rparr>
     (UPDATE_BOARD (Num 0) \<lparr>name_board = ''Updated Board'', columns = []\<rparr>)) ! 0)
     = ''Updated Board''"
  "boards (boardsReducer \<lparr>boards = [\<lparr>name_board = ''Board 1'', columns = []\<rparr>,
                                      \<lparr>name_board = ''Board 2'', columns = []\<rparr>]\<rparr>
     (DELETE_BOARD (Num 1))) = [\<lparr>name_board = ''Board 1'', columns = []\<rparr>]"
  "boards (boardsReducer \<lparr>boards = []\<rparr>
     (SET_BOARDS [\<lparr>name_board = ''New Boards'', columns = []\<rparr>]))
     = [\<lparr>name_board = ''New Boards'', columns = []\<rparr>]"
  "map name (columns (boards (boardsReducer \<lparr>boards = [\<lparr>name_board = ''Board'', columns = []\<rparr>]\<rparr>
     (ADD_COLUMN (Num 0) ''New Column'')) ! 0)) = [''New Column'']"
  by (simp_all add: reducer_eval js_trim_def is_ws_def)

lemma test_handles_tasks:
  "map title (tasks (columns (boards (boardsReducer
      \<lparr>boards = [\<lparr>name_board = ''Board'', columns = [\<lparr>name = ''Todo'', tasks = []\<rparr>]\<rparr>]\<rparr>
      (ADD_TASK (Num 0) ''Todo'' (sample_task ''task-1'' ''New Task'' ''Todo''))) ! 0) ! 0))
     = [''New Task'']"
  "map title (tasks (columns (boards (boardsReducer
      \<lparr>boards = [\<lparr>name_board = ''Board'', columns =
         [\<lparr>name = ''Todo'', tasks = [sample_task ''task-1'' ''Old Task'' ''Todo'']\<rparr>]\<rparr>]\<rparr>
      (UPDATE_TASK (Num 0) ''Todo'' ''Old Task''
         (sample_task ''task-1'' ''Updated Task'' ''Todo''))) ! 0) ! 0))
     = [''Updated Task'']"
  "tasks (columns (boards (boardsReducer
      \<lparr>boards = [\<lparr>name_board = ''Board'', columns =
         [\<lparr>name = ''Todo'', tasks = [sample_task ''task-1'' ''Task to Delete'' ''Todo'']\<rparr>]\<rparr>]\<rparr>
      (DELETE_TASK (Num 0) ''Todo'' ''Task to Delete'')) ! 0) ! 0) = []"
  "subtasks (tasks (columns (boards (boardsReducer
      \<lparr>boards = [\<lparr>name_board = ''Board'', columns =
         [\<lparr>name = ''Todo'', tasks =
            [\<lparr>id_task = ''task-1'', title = ''Task'', description = Some [],
              status = Some ''Todo'',
              subtasks = Some [\<lparr>title_sub = ''Subtask'', isCompleted = False\<rparr>]\<rparr>]\<rparr>]\<rparr>]\<rparr>
      (TOGGLE_SUBTASK (Num 0) ''Todo'' ''Task'' ''Subtask'')) ! 0) ! 0) ! 0)
     = Some [\<lparr>title_sub = ''Subtask'', isCompleted = True\<rparr>]"
  by (simp_all add: reducer_eval)

text \<open>
  The claim as stated, for every state in which the task exists in \<open>fromColumn\<close> and the
  two column names differ, fails where \<open>toColumn\<close> names no column of the board: that
  lookup misses, the state is returned unchanged and the task stays in \<open>fromColumn\<close>.
\<close>

theorem MOVE_TASK_moves_counterexample:
  "find (\<lambda>c. name c = ''Todo'') (columns (boards move_fixture ! 0)) =
     Some \<lparr>name = ''Todo'', tasks = [sample_task ''task-1'' ''Move Me'' ''Todo'']\<rparr>
   \<and> ''Todo'' \<noteq> ''Nowhere''
   \<and> find (\<lambda>c. name c = ''Todo'') (columns (boards
        (boardsReducer move_fixture (MOVE_TASK (Num 0) ''Todo'' ''Nowhere'' ''Move Me'')) ! 0)) =
     Some \<lparr>name = ''Todo'', tasks = [sample_task ''task-1'' ''Move Me'' ''Todo'']\<rparr>
   \<and> boardsReducer move_fixture (MOVE_TASK (Num 0) ''Todo'' ''Nowhere'' ''Move Me'') =
       move_fixture"
  by (simp add: reducer_eval)

text \<open>The move of the repository's test, a move within one column and a move of a missing task.\<close>

theorem MOVE_TASK_moves_witness:
  "find (\<lambda>c. name c = ''Todo'') (columns (boards
      (boardsReducer move_fixture (MOVE_TASK (Num 0) ''Todo'' ''Done'' ''Move Me'')) ! 0)) =
     Some \<lparr>name = ''Todo'', tasks = []\<rparr>
   \<and> find (\<lambda>c. name c = ''Done'') (columns (boards
      (boardsReducer move_fixture (MOVE_TASK (Num 0) ''Todo'' ''Done'' ''Move Me'')) ! 0)) =
     Some \<lparr>name = ''Done'', tasks = [sample_task ''task-1'' ''Move Me'' ''Done'']\<rparr>
   \<and> total_tasks (boards
      (boardsReducer move_fixture (MOVE_TASK (Num 0) ''Todo'' ''Done'' ''Move Me'')) ! 0) = 1
   \<and> boardsReducer move_fixture (MOVE_TASK (Num 0) ''Todo'' ''Todo'' ''Move Me'') = move_fixture
   \<and> boardsReducer move_fixture (MOVE_TASK (Num 0) ''Todo'' ''Done'' ''Ghost'') = move_fixture"
proof -
  let ?task = "sample_task ''task-1'' ''Move Me'' ''Todo''"
  let ?from = "\<lparr>name = ''Todo'', tasks = [?task]\<rparr>"
  let ?to = "\<lparr>name = ''Done'', tasks = []\<rparr>"
  have h: "valid_index (boards move_fixture) (Num 0) = Some 0
      \<and> find (\<lambda>c. name c = ''Todo'') (columns (boards move_fixture ! 0)) = Some ?from
      \<and> find (\<lambda>t. title t = ''Move Me'') (tasks ?from) = Some ?task
      \<and> find (\<lambda>c. name c = ''Done'') (columns (boards move_fixture ! 0)) = Some ?to
      \<and> ''Todo'' \<noteq> ''Done''"
    by (simp add: reducer_eval)
  have t: "total_tasks (boards move_fixture ! 0) = 1" by (simp add: reducer_eval)
  have st: "?task\<lparr>status := Some ''Done''\<rparr> = sample_task ''task-1'' ''Move Me'' ''Done''"
    by (simp add: sample_task_def)
  from MOVE_TASK_moves[of move_fixture "Num 0" "''Todo''" "''Done''" "''Move Me''" 0 ?from ?task]
    h t st
  have moved: "find (\<lambda>c. name c = ''Todo'') (columns (boards
      (boardsReducer move_fixture (MOVE_TASK (Num 0) ''Todo'' ''Done'' ''Move Me'')) ! 0)) =
     Some \<lparr>name = ''Todo'', tasks = []\<rparr>
   \<and> find (\<lambda>c. name c = ''Done'') (columns (boards
      (boardsReducer move_fixture (MOVE_TASK (Num 0) ''Todo'' ''Done'' ''Move Me'')) ! 0)) =
     Some \<lparr>name = ''Done'', tasks = [sample_task ''task-1'' ''Move Me'' ''Done'']\<rparr>
   \<and> total_tasks (boards
      (boardsReducer move_fixture (MOVE_TASK (Num 0) ''Todo'' ''Done'' ''Move Me'')) ! 0) = 1"
    by (auto simp: Let_def append_eq_Cons_conv Cons_eq_append_conv)
  from MOVE_TASK_moves[of move_fixture "Num 0" "''Todo''" "''Todo''" "''Move Me''"]
  have same: "boardsReducer move_fixture (MOVE_TASK (Num 0) ''Todo'' ''Todo'' ''Move Me'') =
      move_fixture"
    by (simp add: Let_def)
  have "\<forall>k fromCol. valid_index (boards move_fixture) (Num 0) = Some k
            \<and> find (\<lambda>c. name c = ''Todo'') (columns (boards move_fixture ! k)) = Some fromCol
          \<longrightarrow> (\<forall>t \<in> set (tasks fromCol). title t \<noteq> ''Ghost'')"
    by (auto simp: reducer_eval)
  with MOVE_TASK_moves[of move_fixture "Num 0" "''Todo''" "''Done''" "''Ghost''"]
  have ghost: "boardsReducer move_fixture (MOVE_TASK (Num 0) ''Todo'' ''Done'' ''Ghost'') =
      move_fixture"
    by (simp add: Let_def)
  from moved same ghost show ?thesis by blast
qed

text \<open>The reorder of the repository's test, and a reorder onto the same position.\<close>

theorem REORDER_TASK_permutes_witness:
  "find (\<lambda>c. name c = ''Todo'') (columns (boards
      (boardsReducer reorder_fixture (REORDER_TASK (Num 0) ''Todo'' (Num 0) (Num 1))) ! 0)) =
     Some \<lparr>name = ''Todo'', tasks = [sample_task ''task-2'' ''Task 2'' ''Todo'',
                                    sample_task ''task-1'' ''Task 1'' ''Todo'']\<rparr>
   \<and> mset [sample_task ''task-2'' ''Task 2'' ''Todo'', sample_task ''task-1'' ''Task 1'' ''Todo'']
       = mset [sample_task ''task-1'' ''Task 1'' ''Todo'', sample_task ''task-2'' ''Task 2'' ''Todo'']
   \<and> boardsReducer reorder_fixture (REORDER_TASK (Num 0) ''Todo'' (Num 1) (Num 1)) =
       reorder_fixture"
proof -
  let ?c = "\<lparr>name = ''Todo'', tasks = [sample_task ''task-1'' ''Task 1'' ''Todo'',
                                     sample_task ''task-2'' ''Task 2'' ''Todo'']\<rparr>"
  have h: "valid_index (boards reorder_fixture) (Num 0) = Some 0
      \<and> find (\<lambda>c. name c = ''Todo'') (columns (boards reorder_fixture ! 0)) = Some ?c
      \<and> (0::nat) < length (tasks ?c) \<and> (1::nat) < length (tasks ?c) \<and> (0::nat) \<noteq> 1"
    by (simp add: reducer_eval)
  from REORDER_TASK_permutes[of reorder_fixture "Num 0" 0 "''Todo''" ?c 0 1 "Num 1"] h
  show ?thesis by (simp add: Let_def)
qed

section \<open>The persistence mirror\<close>

lemma persistence_listener_writes:
  "boards_writes (persistence_listener s sto) =
     (if boards s = [] then boards_writes sto else boards_writes sto @ [boards s])"
  by (simp add: persistence_listener_def)

lemma store_call_step_writes:
  "boards_writes (snd (store_call_step reduce call (s, sto))) =
     (case store_set reduce call s of
        None \<Rightarrow> boards_writes sto
      | Some s' \<Rightarrow> if boards s' = [] then boards_writes sto else boards_writes sto @ [boards s'])"
  by (cases call)
    (auto simp: store_call_step_def notify_def persistence_listener_def split: option.splits)

lemma mirror_never_writes_empty_step:
  "\<forall>w \<in> set (boards_writes sto). w \<noteq> [] \<Longrightarrow>
     \<forall>w \<in> set (boards_writes (snd (store_call_step reduce call (s, sto)))). w \<noteq> []"
  by (auto simp: store_call_step_writes split: option.splits if_splits)

lemma mirror_never_writes_empty:
  "\<forall>w \<in> set (boards_writes (snd cur)). w \<noteq> [] \<Longrightarrow>
     \<forall>w \<in> set (boards_writes (snd (store_run reduce calls cur))). w \<noteq> []"
proof (induction calls arbitrary: cur)
  case Nil
  then show ?case by (simp add: store_run_def)
next
  case (Cons call calls)
  obtain s sto where cur: "cur = (s, sto)" by (cases cur)
  have "\<forall>w \<in> set (boards_writes (snd (store_call_step reduce call cur))). w \<noteq> []"
    using mirror_never_writes_empty_step[of sto reduce call s] Cons.prems cur by simp
  from Cons.IH[OF this] show ?case by (simp add: store_run_def)
qed

lemma mirror_writes_on_toast:
  "boards s \<noteq> [] \<Longrightarrow>
     store_call_step reduce (AddToast t) (s, sto) =
       (s\<lparr>toasts := toasts s @ [t]\<rparr>, sto\<lparr>boards_writes := boards_writes sto @ [boards s]\<rparr>)"
  by (simp add: store_call_step_def notify_def persistence_listener_def)

text \<open>
  Claim C4, at its failing input. The store holds one board and the mirror is subscribed;
  a notice is added. The boards of the store are the ones it held before, and yet the
  mirror writes them to storage: the listener is registered for the whole state, so it
  runs on every change of the store, whatever slice changed. (That no empty board list is
  ever written holds: \<open>mirror_never_writes_empty\<close>.)
\<close>

theorem mirror_writes_without_boards_change:
  "boards (fst (store_call_step boardsReducer_step (AddToast sample_toast)
                  (sample_store, empty_storage))) = boards sample_store
   \<and> boards_writes (snd (store_call_step boardsReducer_step (AddToast sample_toast)
                  (sample_store, empty_storage))) = [boards sample_store]
   \<and> boards_writes (snd (store_call_step boardsReducer_step (SetTheme dark)
                  (sample_store, empty_storage))) = [boards sample_store]"
  by (simp add: store_call_step_def notify_def persistence_listener_def sample_store_def
      empty_storage_def)

section \<open>The hydration controller\<close>

lemma on_settled_frame:
  "attempts (on_settled reduce a outcome h) = attempts h"
  "mounted (on_settled reduce a outcome h) = mounted h"
  by (auto simp: on_settled_def dispatch_def Let_def split: fetch_outcome.splits)

lemma on_settled_cancelled: "cancelled a \<Longrightarrow> on_settled reduce a outcome h = h"
  by (auto simp: on_settled_def Let_def split: fetch_outcome.splits)

lemma cleanup_frame:
  "length (attempts (cleanup h)) = length (attempts h)"
  "mounted (cleanup h) = mounted h"
  by (simp_all add: cleanup_def)

lemma cleanup_cancels:
  assumes "hydration_inv h" and "i < length (attempts h)"
  shows "cancelled (attempts (cleanup h) ! i)"
proof -
  have ne: "attempts h \<noteq> []" using assms(2) by auto
  then have att: "attempts (cleanup h) =
      (attempts h)[length (attempts h) - 1 := (last (attempts h))\<lparr>cancelled := True\<rparr>]"
    by (simp add: cleanup_def)
  show ?thesis
  proof (cases "Suc i = length (attempts h)")
    case True
    then have "length (attempts h) - 1 = i" by simp
    then show ?thesis unfolding att using assms(2) by (simp only: nth_list_update_eq) simp
  next
    case False
    then have "cancelled (attempts h ! i)"
      using assms by (auto simp: hydration_inv_def)
    moreover have "length (attempts h) - 1 \<noteq> i" using False assms(2) by simp
    ultimately show ?thesis unfolding att by (simp add: nth_list_update)
  qed
qed

lemma inv_init: "hydration_inv hydration_init"
  by (simp add: hydration_inv_def hydration_init_def)

lemma inv_run_effect:
  assumes "\<forall>i < length (attempts h). cancelled (attempts h ! i)" and "mounted h"
  shows "hydration_inv (run_effect h)"
  using assms by (auto simp: hydration_inv_def run_effect_def nth_append less_Suc_eq)

lemma inv_unmounted: "hydration_inv h \<Longrightarrow> \<not> mounted h \<Longrightarrow> i < length (attempts h)
    \<Longrightarrow> cancelled (attempts h ! i)"
  by (auto simp: hydration_inv_def)

lemma inv_step: "hydration_inv h \<Longrightarrow> hydration_inv (hydration_step reduce ev h)"
proof (cases ev)
  case Mount
  assume inv: "hydration_inv h"
  show ?thesis
  proof (cases "mounted h")
    case True
    with inv Mount show ?thesis by simp
  next
    case False
    have "hydration_inv (run_effect (h\<lparr>mounted := True\<rparr>))"
      by (rule inv_run_effect) (use inv False in \<open>auto dest: inv_unmounted\<close>)
    with False Mount show ?thesis by simp
  qed
next
  case Unmount
  assume inv: "hydration_inv h"
  show ?thesis
  proof (cases "mounted h")
    case True
    have "\<forall>i < length (attempts (cleanup h)). cancelled (attempts (cleanup h) ! i)"
      using cleanup_cancels[OF inv] by (simp add: cleanup_frame)
    then have "hydration_inv ((cleanup h)\<lparr>mounted := False\<rparr>)"
      by (simp add: hydration_inv_def)
    with True Unmount show ?thesis by simp
  next
    case False
    with inv Unmount show ?thesis by simp
  qed
next
  case Retry
  assume inv: "hydration_inv h"
  show ?thesis
  proof (cases "mounted h")
    case True
    have "\<forall>i < length (attempts (cleanup h)). cancelled (attempts (cleanup h) ! i)"
      using cleanup_cancels[OF inv] by (simp add: cleanup_frame)
    then have "hydration_inv (run_effect ((cleanup h)\<lparr>retryAttempt := retryAttempt h + 1\<rparr>))"
      using True by (intro inv_run_effect) (simp_all add: cleanup_frame)
    with True Retry show ?thesis by simp
  next
    case False
    with inv Retry show ?thesis by simp
  qed
next
  case (Settle i outcome)
  assume inv: "hydration_inv h"
  then show ?thesis
    using Settle
    by (auto simp: hydration_inv_def on_settled_frame nth_list_update)
next
  case (OtherDispatch action)
  assume "hydration_inv h"
  then show ?thesis using OtherDispatch by (simp add: hydration_inv_def dispatch_def)
qed

lemma inv_run_from: "hydration_inv h \<Longrightarrow> hydration_inv (hydration_run reduce evs h)"
  unfolding hydration_run_def
  by (induction evs arbitrary: h) (simp_all add: inv_step)

lemma inv_run: "hydration_inv (hydration_run reduce evs hydration_init)"
  by (rule inv_run_from[OF inv_init])

lemma superseded_cancelled:
  "hydration_inv h \<Longrightarrow> superseded h i \<Longrightarrow> cancelled (attempts h ! i)"
  by (auto simp: hydration_inv_def superseded_def)

lemma stale_step:
  assumes "hydration_inv h" and "superseded h i"
  shows "store (hydration_step reduce (Settle i outcome) h) = store h"
    and "dispatches (hydration_step reduce (Settle i outcome) h) = dispatches h"
    and "loadError (hydration_step reduce (Settle i outcome) h) = loadError h"
    and "ui_calls (hydration_step reduce (Settle i outcome) h) = ui_calls h"
    and "length (attempts (hydration_step reduce (Settle i outcome) h)) = length (attempts h)"
    and "mounted (hydration_step reduce (Settle i outcome) h) = mounted h"
  using superseded_cancelled[OF assms] by (simp_all add: on_settled_cancelled)

lemma stale_run:
  assumes "hydration_inv h" and "\<forall>ev \<in> set stale. stale_settlement h ev"
  shows "store (hydration_run reduce stale h) = store h
    \<and> dispatches (hydration_run reduce stale h) = dispatches h
    \<and> loadError (hydration_run reduce stale h) = loadError h
    \<and> ui_calls (hydration_run reduce stale h) = ui_calls h"
  using assms
proof (induction stale arbitrary: h)
  case Nil
  show ?case by (simp add: hydration_run_def)
next
  case (Cons ev stale)
  from Cons.prems(2) obtain i outcome where ev: "ev = Settle i outcome" and sup: "superseded h i"
    by (cases ev) (auto simp: stale_settlement_def)
  let ?h = "hydration_step reduce ev h"
  have inv': "hydration_inv ?h" by (rule inv_step[OF Cons.prems(1)])
  have same: "length (attempts ?h) = length (attempts h)" "mounted ?h = mounted h"
    using stale_step(5,6)[OF Cons.prems(1) sup] ev by simp_all
  have "\<forall>e \<in> set stale. stale_settlement ?h e"
    using Cons.prems(2) same
    by (auto simp: stale_settlement_def superseded_def split: hydration_event.splits)
  from Cons.IH[OF inv' this] stale_step(1-4)[OF Cons.prems(1) sup, of reduce outcome] ev
  show ?case by (simp add: hydration_run_def)
qed

text \<open>
  Claim C3. Take the state reached by any interleaving of activations, deactivations,
  retries, settlements and other dispatches, and any sequence of settlements, successful
  or failed, of attempts that are superseded in that state (a later attempt exists, or the
  controller has been deactivated). These settlements dispatch nothing, record no error
  and make no call to the feedback functions (no notice, no change of the busy key): the
  boards, the list of dispatches, the recorded error and the list of feedback calls are
  what they were, so the boards still reflect whatever the most recent attempt and the
  other dispatches made of them.
\<close>

theorem stale_settlements_discarded:
  "(\<forall>ev \<in> set stale. stale_settlement (hydration_run reduce evs hydration_init) ev) \<longrightarrow>
     (let h = hydration_run reduce evs hydration_init; h' = hydration_run reduce stale h in
      store h' = store h \<and> dispatches h' = dispatches h \<and> loadError h' = loadError h
      \<and> ui_calls h' = ui_calls h)"
  using stale_run[OF inv_run, of stale reduce evs reduce] by (simp add: Let_def)

lemma live_init: "live_inv hydration_init"
  by (simp add: live_inv_def hydration_init_def)

lemma live_run_effect: "live_inv (run_effect h)"
  by (simp add: live_inv_def run_effect_def nth_append)

lemma cancelled_after_settle:
  "j < length as \<Longrightarrow> cancelled (as[i := (as ! i)\<lparr>settled := True\<rparr>] ! j) = cancelled (as ! j)"
  by (cases "i = j") simp_all

lemma live_step: "live_inv h \<Longrightarrow> live_inv (hydration_step reduce ev h)"
proof (cases ev)
  case (Settle i outcome)
  assume live: "live_inv h"
  show ?thesis
  proof (cases "i < length (attempts h) \<and> \<not> settled (attempts h ! i)")
    case True
    let ?as = "(attempts h)[i := (attempts h ! i)\<lparr>settled := True\<rparr>]"
    have ne: "attempts h \<noteq> []" using True by auto
    then have "length (attempts h) - 1 < length (attempts h)" by simp
    then have "cancelled (?as ! (length (attempts h) - 1)) =
        cancelled (attempts h ! (length (attempts h) - 1))"
      by (rule cancelled_after_settle)
    then show ?thesis
      using live True Settle ne by (simp add: live_inv_def on_settled_frame)
  next
    case False
    with live Settle show ?thesis by auto
  qed
next
  case Mount
  assume "live_inv h"
  with Mount show ?thesis by (simp add: live_run_effect)
next
  case Retry
  assume "live_inv h"
  with Retry show ?thesis by (simp add: live_run_effect)
next
  case Unmount
  assume "live_inv h"
  with Unmount show ?thesis by (auto simp: live_inv_def)
next
  case (OtherDispatch action)
  assume "live_inv h"
  with OtherDispatch show ?thesis by (simp add: live_inv_def dispatch_def)
qed

lemma live_run_from: "live_inv h \<Longrightarrow> live_inv (hydration_run reduce evs h)"
  unfolding hydration_run_def
  by (induction evs arbitrary: h) (simp_all add: live_step)

lemma live_run: "live_inv (hydration_run reduce evs hydration_init)"
  by (rule live_run_from[OF live_init])

lemma current_live:
  "live_inv h \<Longrightarrow> current_attempt h i \<Longrightarrow> \<not> cancelled (attempts h ! i)"
proof -
  assume live: "live_inv h" and cur: "current_attempt h i"
  from cur have "length (attempts h) - 1 = i" and "mounted h"
    by (auto simp: current_attempt_def)
  with live show ?thesis by (auto simp: live_inv_def)
qed

lemma failure_step:
  assumes "live_inv h" and "current_attempt h i" and "\<not> settled (attempts h ! i)"
    and "is_failure outcome"
  shows "store (hydration_step reduce (Settle i outcome) h) = store h"
    and "dispatches (hydration_step reduce (Settle i outcome) h) = dispatches h"
    and "loadError (hydration_step reduce (Settle i outcome) h) =
           Some (failure_message outcome)"
    and "ui_calls (hydration_step reduce (Settle i outcome) h) =
           ui_calls h @ [CallShowToast error (failure_message outcome),
                         CallStopLoading ''initBoards'']"
proof -
  have i: "i < length (attempts h)" using assms(2) by (auto simp: current_attempt_def)
  have nc: "\<not> cancelled (attempts h ! i)" by (rule current_live[OF assms(1,2)])
  have step: "hydration_step reduce (Settle i outcome) h =
      on_settled reduce (attempts h ! i) outcome
        (h\<lparr>attempts := (attempts h)[i := (attempts h ! i)\<lparr>settled := True\<rparr>]\<rparr>)"
    using i assms(3) by simp
  show "store (hydration_step reduce (Settle i outcome) h) = store h"
    and "dispatches (hydration_step reduce (Settle i outcome) h) = dispatches h"
    and "loadError (hydration_step reduce (Settle i outcome) h) =
           Some (failure_message outcome)"
    and "ui_calls (hydration_step reduce (Settle i outcome) h) =
           ui_calls h @ [CallShowToast error (failure_message outcome),
                         CallStopLoading ''initBoards'']"
    unfolding step using nc assms(4)
    by (auto simp: on_settled_def is_failure_def Let_def split: fetch_outcome.splits)
qed

text \<open>
  Claim C5, as amended. Take the state reached by any interleaving of events and an
  attempt that is current in it (the latest attempt, the controller being mounted) and
  has not settled. When its fetch fails, with an error or with any other rejection value,
  the boards are left unchanged and nothing is dispatched (no fallback data), the error
  message is recorded and shown as an error notice, and the busy key \<^verbatim>\<open>initBoards\<close> is
  cleared by a call of \<open>stopLoading\<close> (which removes the key at once or when its minimum
  duration has passed, see \<open>stopLoading_removes_or_schedules\<close>). The rejection is a value
  handled by the step, which returns the next state: nothing is thrown past the
  controller.
\<close>

theorem current_failure_reported:
  "(let h = hydration_run reduce evs hydration_init;
        h' = hydration_step reduce (Settle i outcome) h in
    current_attempt h i \<and> \<not> settled (attempts h ! i) \<and> is_failure outcome \<longrightarrow>
      store h' = store h \<and> dispatches h' = dispatches h
      \<and> loadError h' = Some (failure_message outcome)
      \<and> ui_calls h' = ui_calls h @ [CallShowToast error (failure_message outcome),
                                     CallStopLoading ''initBoards''])"
  using failure_step[OF live_run, of reduce evs i outcome reduce] by (simp add: Let_def)

lemmas hydration_eval =
  hydration_run_def hydration_init_def run_effect_def cleanup_def on_settled_def
  dispatch_def failure_message_def is_failure_def current_attempt_def superseded_def
  stale_settlement_def

text \<open>
  The claim as stated, for every attempt whose fetch fails, does not hold for an attempt
  that was superseded before it failed: the controller is activated and deactivated, then
  the fetch fails; no error is recorded, no notice is shown and \<open>stopLoading\<close> is not
  called.
\<close>

theorem current_failure_reported_counterexample:
  "is_failure (RejectedError ''Network Error'')
   \<and> loadError (hydration_step boardsReducer (Settle 0 (RejectedError ''Network Error''))
        (hydration_run boardsReducer [Mount, Unmount] hydration_init))
       \<noteq> Some (failure_message (RejectedError ''Network Error''))
   \<and> loadError (hydration_step boardsReducer (Settle 0 (RejectedError ''Network Error''))
        (hydration_run boardsReducer [Mount, Unmount] hydration_init)) = None
   \<and> ui_calls (hydration_step boardsReducer (Settle 0 (RejectedError ''Network Error''))
        (hydration_run boardsReducer [Mount, Unmount] hydration_init)) =
       [CallStartLoading ''initBoards'']"
  by (simp add: hydration_eval)

text \<open>A failure of the first attempt while it is current, and of the second after a retry.\<close>

theorem current_failure_reported_witness:
  "current_attempt (hydration_run boardsReducer [Mount] hydration_init) 0
   \<and> loadError (hydration_step boardsReducer (Settle 0 (RejectedError ''Network Error''))
        (hydration_run boardsReducer [Mount] hydration_init)) = Some ''Network Error''
   \<and> ui_calls (hydration_step boardsReducer (Settle 0 RejectedOther)
        (hydration_run boardsReducer [Mount] hydration_init)) =
       [CallStartLoading ''initBoards'', CallShowToast error ''Failed to load boards'',
        CallStopLoading ''initBoards'']
   \<and> store (hydration_step boardsReducer (Settle 0 RejectedOther)
        (hydration_run boardsReducer [Mount] hydration_init)) = \<lparr>boards = []\<rparr>"
proof -
  have c: "current_attempt (hydration_run boardsReducer [Mount] hydration_init) 0"
    and s: "\<not> settled (attempts (hydration_run boardsReducer [Mount] hydration_init) ! 0)"
    and f: "is_failure (RejectedError ''Network Error'')" "is_failure RejectedOther"
    by (simp_all add: hydration_eval)
  have u: "ui_calls (hydration_run boardsReducer [Mount] hydration_init) =
      [CallStartLoading ''initBoards'']"
    and st: "store (hydration_run boardsReducer [Mount] hydration_init) = \<lparr>boards = []\<rparr>"
    by (simp_all add: hydration_eval)
  from current_failure_reported[of boardsReducer "[Mount]" 0 "RejectedError ''Network Error''"]
    c s f(1)
  have a: "loadError (hydration_step boardsReducer (Settle 0 (RejectedError ''Network Error''))
        (hydration_run boardsReducer [Mount] hydration_init)) = Some ''Network Error''"
    by (simp add: Let_def failure_message_def)
  from current_failure_reported[of boardsReducer "[Mount]" 0 RejectedOther] c s f(2) u st
  have b: "ui_calls (hydration_step boardsReducer (Settle 0 RejectedOther)
        (hydration_run boardsReducer [Mount] hydration_init)) =
       [CallStartLoading ''initBoards'', CallShowToast error ''Failed to load boards'',
        CallStopLoading ''initBoards'']
   \<and> store (hydration_step boardsReducer (Settle 0 RejectedOther)
        (hydration_run boardsReducer [Mount] hydration_init)) = \<lparr>boards = []\<rparr>"
    by (simp add: Let_def failure_message_def)
  from a b c show ?thesis by blast
qed

text \<open>
  The scenario of the specification: attempt 0 is slow, a retry starts attempt 1, which
  succeeds first; when attempt 0 resolves later, or fails, the boards are still those of
  attempt 1.
\<close>

theorem stale_settlements_discarded_witness:
  "stale_settlement
     (hydration_run boardsReducer [Mount, Retry, Settle 1 (Resolved [sample_board])]
        hydration_init) (Settle 0 (Resolved []))
   \<and> store (hydration_run boardsReducer [Settle 0 (Resolved [])]
       (hydration_run boardsReducer [Mount, Retry, Settle 1 (Resolved [sample_board])]
          hydration_init)) = \<lparr>boards = [sample_board]\<rparr>
   \<and> dispatches (hydration_run boardsReducer [Settle 0 (Resolved [])]
       (hydration_run boardsReducer [Mount, Retry, Settle 1 (Resolved [sample_board])]
          hydration_init)) = [SET_BOARDS [sample_board]]"
proof -
  let ?h = "hydration_run boardsReducer [Mount, Retry, Settle 1 (Resolved [sample_board])]
      hydration_init"
  have stale: "stale_settlement ?h (Settle 0 (Resolved []))"
    by (simp add: hydration_eval)
  have before: "store ?h = \<lparr>boards = [sample_board]\<rparr>"
    "dispatches ?h = [SET_BOARDS [sample_board]]"
    by (simp_all add: hydration_eval boardsReducer_def)
  from stale_settlements_discarded[of "[Settle 0 (Resolved [])]" boardsReducer
      "[Mount, Retry, Settle 1 (Resolved [sample_board])]"] stale before
  show ?thesis by (simp add: Let_def)
qed

section \<open>Busy keys\<close>

lemma ui_inv_init: "ui_inv T ui_init"
  by (simp add: ui_inv_def ui_init_def)

lemma ui_inv_mono: "ui_inv T u \<Longrightarrow> T \<le> T' \<Longrightarrow> ui_inv T' u"
  by (fastforce simp: ui_inv_def)

lemma inv_startLoading:
  assumes "ui_inv T u" and "T \<le> now"
  shows "ui_inv now (startLoading now key u)"
  using assms
  unfolding ui_inv_def startLoading_def clearTimeout_def Let_def
  by (auto split: option.splits) fastforce+

lemma inv_doStop:
  assumes "ui_inv T u" and "\<forall>h due. timers u h \<noteq> Some (key, due)"
  shows "ui_inv T (doStop key u)"
  using assms unfolding ui_inv_def doStop_def by auto

lemma inv_clear_registered:
  assumes "ui_inv T u" and "stopTimeouts u key = Some h0"
  shows "ui_inv T (clearTimeout h0 u)"
    and "\<forall>h due. timers (clearTimeout h0 u) h \<noteq> Some (key, due)"
  using assms unfolding ui_inv_def clearTimeout_def by auto

lemma inv_none_registered:
  assumes "ui_inv T u" and "stopTimeouts u key = None"
  shows "\<forall>h due. timers u h \<noteq> Some (key, due)"
  using assms unfolding ui_inv_def by auto

lemma remaining_bound:
  assumes "s \<le> T" and "T \<le> now"
  shows "s + MIN_LOADING_DURATION_MS \<le>
     now + max 0 (MIN_LOADING_DURATION_MS - (if s \<noteq> 0 then now - s else 0))"
  using assms by (auto simp: MIN_LOADING_DURATION_MS_def)

lemma inv_schedule:
  assumes inv: "ui_inv T u" and none: "\<forall>h due. timers u h \<noteq> Some (key, due)"
    and due: "\<forall>s. loadingStartTimes u key = Some s \<longrightarrow> s + MIN_LOADING_DURATION_MS \<le> d"
    and reg: "\<forall>h. stopTimeouts u key = Some h \<longrightarrow> h < next_timer u"
  shows "ui_inv T (u\<lparr>timers := (timers u)(next_timer u \<mapsto> (key, d)),
                    stopTimeouts := (stopTimeouts u)(key \<mapsto> next_timer u),
                    next_timer := Suc (next_timer u)\<rparr>)"
  using assms unfolding ui_inv_def by (auto simp: less_Suc_eq)

lemma clearTimeout_frame:
  "loadingStartTimes (clearTimeout h u) = loadingStartTimes u"
  "stopTimeouts (clearTimeout h u) = stopTimeouts u"
  "next_timer (clearTimeout h u) = next_timer u"
  "busyKeys (clearTimeout h u) = busyKeys u"
  by (simp_all add: clearTimeout_def)

lemma stopLoading_unfold:
  "stopLoading now key u =
     (if stop_remaining now key u > 0
      then (stop_cleared key u)
        \<lparr>timers := (timers (stop_cleared key u))
           (next_timer (stop_cleared key u) \<mapsto> (key, now + stop_remaining now key u)),
         stopTimeouts := (stopTimeouts (stop_cleared key u))
           (key \<mapsto> next_timer (stop_cleared key u)),
         next_timer := Suc (next_timer (stop_cleared key u))\<rparr>
      else doStop key (stop_cleared key u))"
  by (simp add: stopLoading_def stop_remaining_def stop_elapsed_def stop_cleared_def Let_def)

lemma stop_cleared_frame:
  "loadingStartTimes (stop_cleared key u) = loadingStartTimes u"
  "stopTimeouts (stop_cleared key u) = stopTimeouts u"
  "next_timer (stop_cleared key u) = next_timer u"
  "busyKeys (stop_cleared key u) = busyKeys u"
  by (simp_all add: stop_cleared_def clearTimeout_frame split: option.splits)

lemma inv_stop_cleared:
  assumes "ui_inv T u"
  shows "ui_inv T (stop_cleared key u)"
    and "\<forall>h due. timers (stop_cleared key u) h \<noteq> Some (key, due)"
proof -
  show "ui_inv T (stop_cleared key u)"
    using assms inv_clear_registered(1)[OF assms]
    by (simp add: stop_cleared_def split: option.splits)
  show "\<forall>h due. timers (stop_cleared key u) h \<noteq> Some (key, due)"
  proof (cases "stopTimeouts u key")
    case None
    with inv_none_registered[OF assms None] show ?thesis by (simp add: stop_cleared_def)
  next
    case (Some h0)
    with inv_clear_registered(2)[OF assms Some] show ?thesis by (simp add: stop_cleared_def)
  qed
qed

lemma stop_remaining_due:
  assumes "ui_inv T u" and "T \<le> now" and "loadingStartTimes u key = Some s"
  shows "s + MIN_LOADING_DURATION_MS \<le> now + stop_remaining now key u"
proof -
  have "s \<le> T" using assms(1,3) by (auto simp: ui_inv_def)
  from remaining_bound[OF this assms(2)] assms(3) show ?thesis
    by (simp add: stop_remaining_def stop_elapsed_def)
qed

lemma inv_stopLoading:
  assumes inv: "ui_inv T u" and le: "T \<le> now"
  shows "ui_inv now (stopLoading now key u)"
proof -
  let ?u1 = "stop_cleared key u"
  note u1 = inv_stop_cleared[OF inv, of key]
  have due: "\<forall>s. loadingStartTimes ?u1 key = Some s \<longrightarrow>
      s + MIN_LOADING_DURATION_MS \<le> now + stop_remaining now key u"
    using stop_remaining_due[OF inv le] by (simp add: stop_cleared_frame)
  have reg: "\<forall>h. stopTimeouts ?u1 key = Some h \<longrightarrow> h < next_timer ?u1"
    using u1(1) by (auto simp: ui_inv_def)
  have "ui_inv T (stopLoading now key u)"
  proof (cases "stop_remaining now key u > 0")
    case True
    then show ?thesis
      using inv_schedule[OF u1(1) u1(2) due reg] by (simp only: stopLoading_unfold if_True)
  next
    case False
    then show ?thesis
      using inv_doStop[OF u1(1) u1(2)] by (simp only: stopLoading_unfold if_False)
  qed
  then show ?thesis using le by (rule ui_inv_mono)
qed

lemma inv_timerFires:
  assumes inv: "ui_inv T u" and le: "T \<le> now"
  shows "ui_inv now (timerFires now h u)"
proof (cases "timers u h")
  case None
  then show ?thesis using ui_inv_mono[OF inv le] by (simp add: timerFires_def)
next
  case (Some kd)
  obtain key due where kd: "kd = (key, due)" by (cases kd)
  show ?thesis
  proof (cases "due \<le> now")
    case True
    have reg: "stopTimeouts u key = Some h" using inv Some kd by (auto simp: ui_inv_def)
    have "ui_inv T (doStop key (clearTimeout h u))"
      using inv_clear_registered[OF inv reg] by (intro inv_doStop)
    then show ?thesis
      using True Some kd le by (simp add: timerFires_def ui_inv_mono)
  next
    case False
    then show ?thesis using Some kd ui_inv_mono[OF inv le] by (simp add: timerFires_def)
  qed
qed

lemma inv_providerCleanup:
  assumes "ui_inv T u" and "T \<le> now"
  shows "ui_inv now (providerCleanup u)"
  using assms unfolding ui_inv_def providerCleanup_def
  by (auto split: option.splits) fastforce

lemma providerCleanup_clears_all: "ui_inv T u \<Longrightarrow> timers (providerCleanup u) h = None"
  unfolding ui_inv_def providerCleanup_def by (auto split: option.splits)

lemma inv_ui_step:
  "ui_inv T u \<Longrightarrow> T \<le> fst ev \<Longrightarrow> ui_inv (fst ev) (ui_step ev u)"
  by (cases ev; cases "snd ev")
    (auto simp: inv_startLoading inv_stopLoading inv_timerFires inv_providerCleanup)

lemma ui_run_append: "ui_run (a @ b) u = ui_run b (ui_run a u)"
  by (simp add: ui_run_def)

lemma ui_run_Cons: "ui_run (ev # evs) u = ui_run evs (ui_step ev u)"
  by (simp add: ui_run_def)

lemma inv_ui_run_from:
  "ui_inv T u \<Longrightarrow> sorted (map fst evs) \<Longrightarrow> \<forall>ev \<in> set evs. T \<le> fst ev \<and> fst ev \<le> T'
     \<Longrightarrow> T \<le> T' \<Longrightarrow> ui_inv T' (ui_run evs u)"
proof (induction evs arbitrary: u T)
  case Nil
  then show ?case by (simp add: ui_run_def ui_inv_mono)
next
  case (Cons ev evs)
  have step: "ui_inv (fst ev) (ui_step ev u)"
    using inv_ui_step[OF Cons.prems(1)] Cons.prems(3) by simp
  have "ui_inv T' (ui_run evs (ui_step ev u))"
    using Cons.prems(2,3) by (intro Cons.IH[OF step]) auto
  then show ?case by (simp add: ui_run_Cons)
qed

lemma busy_since_startLoading: "busy_since now k (startLoading now k u)"
  by (auto simp: busy_since_def startLoading_def addLoadingKey_def clearTimeout_def Let_def
      split: option.splits)

lemma startLoading_other:
  "key \<noteq> k \<Longrightarrow> busy_since s k u \<Longrightarrow> busy_since s k (startLoading now key u)"
  by (auto simp: busy_since_def startLoading_def addLoadingKey_def clearTimeout_def Let_def
      split: option.splits)

lemma startLoading_again:
  "s \<le> now \<Longrightarrow> busy_since s k (startLoading now k u)"
  by (auto simp: busy_since_def startLoading_def addLoadingKey_def clearTimeout_def Let_def
      split: option.splits)

lemma doStop_other:
  "key \<noteq> k \<Longrightarrow> busy_since s k u \<Longrightarrow> busy_since s k (doStop key u)"
  by (auto simp: busy_since_def doStop_def removeLoadingKey_def)

lemma clearTimeout_busy: "busy_since s k (clearTimeout h u) = busy_since s k u"
  by (simp add: busy_since_def clearTimeout_def)

lemma stop_cleared_busy: "busy_since s k (stop_cleared key u) = busy_since s k u"
  by (simp add: stop_cleared_def clearTimeout_busy split: option.splits)

lemma schedule_busy:
  "busy_since s k (u\<lparr>timers := t, stopTimeouts := st, next_timer := n\<rparr>) = busy_since s k u"
  by (simp add: busy_since_def)

lemma stop_remaining_positive:
  assumes "busy_since s k u" and "now < s + MIN_LOADING_DURATION_MS"
  shows "stop_remaining now k u > 0"
  using assms
  by (auto simp: busy_since_def stop_remaining_def stop_elapsed_def MIN_LOADING_DURATION_MS_def)

lemma busy_since_stopLoading:
  assumes "busy_since s k u" and "now < s + MIN_LOADING_DURATION_MS"
  shows "busy_since s k (stopLoading now key u)"
proof (cases "key = k")
  case True
  have "stop_remaining now k u > 0" by (rule stop_remaining_positive[OF assms])
  then show ?thesis
    using assms(1) True by (simp add: stopLoading_unfold schedule_busy stop_cleared_busy)
next
  case False
  show ?thesis
    using assms(1) doStop_other[OF False, of s "stop_cleared key u"]
    by (simp add: stopLoading_unfold schedule_busy stop_cleared_busy)
qed

lemma busy_since_timerFires:
  assumes inv: "ui_inv T u" and busy: "busy_since s k u"
    and now: "now < s + MIN_LOADING_DURATION_MS"
  shows "busy_since s k (timerFires now h u)"
proof (cases "timers u h")
  case None
  with busy show ?thesis by (simp add: timerFires_def)
next
  case (Some kd)
  obtain key due where kd: "kd = (key, due)" by (cases kd)
  show ?thesis
  proof (cases "due \<le> now")
    case False
    with busy Some kd show ?thesis by (simp add: timerFires_def)
  next
    case True
    have "key \<noteq> k"
    proof
      assume "key = k"
      from busy obtain s' where s': "loadingStartTimes u k = Some s'" "s \<le> s'"
        by (auto simp: busy_since_def)
      with inv Some kd \<open>key = k\<close> have "s' + MIN_LOADING_DURATION_MS \<le> due"
        by (auto simp: ui_inv_def)
      with True now s'(2) show False by simp
    qed
    then have "busy_since s k (doStop key (clearTimeout h u))"
      using busy by (intro doStop_other) (simp_all add: clearTimeout_busy)
    with True Some kd show ?thesis by (simp add: timerFires_def)
  qed
qed

lemma busy_since_step:
  assumes "ui_inv T u" and "busy_since s k u" and "T \<le> fst ev"
    and "fst ev < s + MIN_LOADING_DURATION_MS"
  shows "busy_since s k (ui_step ev u)"
proof -
  obtain now e where ev: "ev = (now, e)" by (cases ev)
  from assms(2) obtain s' where s': "loadingStartTimes u k = Some s'" "s \<le> s'"
    by (auto simp: busy_since_def)
  have "s' \<le> T" using assms(1) s'(1) by (auto simp: ui_inv_def)
  with s'(2) assms(3) ev have le: "s \<le> now" by simp
  show ?thesis
  proof (cases e)
    case (StartLoading key)
    then show ?thesis
      using ev le assms(2) startLoading_again[OF le, of k u] startLoading_other[of key k s u now]
      by (cases "key = k") simp_all
  next
    case (StopLoading key)
    then show ?thesis using ev busy_since_stopLoading[OF assms(2), of now key] assms(4) by simp
  next
    case (TimerFires h)
    then show ?thesis
      using ev busy_since_timerFires[OF assms(1,2), of now h] assms(4) by simp
  next
    case ProviderUnmounts
    then show ?thesis
      using ev assms(2) by (simp add: busy_since_def providerCleanup_def)
  qed
qed

lemma busy_since_run:
  "ui_inv T u \<Longrightarrow> busy_since s k u \<Longrightarrow> sorted (map fst evs)
     \<Longrightarrow> \<forall>ev \<in> set evs. T \<le> fst ev \<and> fst ev < s + MIN_LOADING_DURATION_MS
     \<Longrightarrow> busy_since s k (ui_run evs u)"
proof (induction evs arbitrary: u T)
  case Nil
  then show ?case by (simp add: ui_run_def)
next
  case (Cons ev evs)
  have inv': "ui_inv (fst ev) (ui_step ev u)"
    using inv_ui_step[OF Cons.prems(1)] Cons.prems(4) by simp
  have busy': "busy_since s k (ui_step ev u)"
    using busy_since_step[OF Cons.prems(1,2)] Cons.prems(4) by simp
  have "busy_since s k (ui_run evs (ui_step ev u))"
    using Cons.prems(3,4) by (intro Cons.IH[OF inv' busy']) auto
  then show ?case by (simp add: ui_run_Cons)
qed

lemma no_timer_after_start:
  assumes "ui_inv T u"
  shows "\<forall>h due. timers (startLoading now k u) h \<noteq> Some (k, due)"
proof -
  have "ui_inv (max T now) (startLoading (max T now) k u)"
    by (rule inv_startLoading[OF assms]) simp
  moreover have "stopTimeouts (startLoading (max T now) k u) k = None"
    by (simp add: startLoading_def clearTimeout_def Let_def split: option.splits)
  ultimately have "\<forall>h due. timers (startLoading (max T now) k u) h \<noteq> Some (k, due)"
    by (rule inv_none_registered)
  moreover have "timers (startLoading (max T now) k u) = timers (startLoading now k u)"
    by (simp add: startLoading_def clearTimeout_def Let_def split: option.splits)
  ultimately show ?thesis by simp
qed

text \<open>
  What a call of \<open>stopLoading\<close> achieves: the key is removed from the busy set at once, or
  its removal is pending; and when a pending removal comes due, the key is removed.
\<close>

lemma stopLoading_removes_or_schedules:
  "k \<notin> set (busyKeys (stopLoading now k u))
   \<or> (\<exists>h due. stopTimeouts (stopLoading now k u) k = Some h
         \<and> timers (stopLoading now k u) h = Some (k, due))"
  by (cases "stop_remaining now k u > 0")
    (auto simp: stopLoading_unfold doStop_def removeLoadingKey_def)

lemma timerFires_removes:
  "timers u h = Some (k, due) \<Longrightarrow> due \<le> now \<Longrightarrow> k \<notin> set (busyKeys (timerFires now h u))"
  by (simp add: timerFires_def doStop_def removeLoadingKey_def clearTimeout_def)

lemma sorted_split:
  assumes "sorted (map fst (es1 @ (s, e) # es2))"
  shows "sorted (map fst es1)" and "\<forall>ev \<in> set es1. fst ev \<le> s"
    and "sorted (map fst es2)" and "\<forall>ev \<in> set es2. s \<le> fst ev"
  using assms by (auto simp: sorted_append)

lemma inv_before:
  assumes "sorted (map fst es1)" and "\<forall>ev \<in> set es1. fst ev \<le> s"
  shows "ui_inv s (ui_run es1 ui_init)"
proof (cases es1)
  case Nil
  then show ?thesis by (simp add: ui_run_def ui_inv_init)
next
  case (Cons e0 es)
  have lo: "\<forall>ev \<in> set es1. fst e0 \<le> fst ev" using assms(1) Cons by auto
  have "fst e0 \<le> s" using assms(2) Cons by simp
  then show ?thesis
    using inv_ui_run_from[OF ui_inv_init[of "fst e0"] assms(1), of s] lo assms(2) by simp
qed

text \<open>
  Claim C9. Take any run of the provider in which the clock never goes backwards, and in
  it a call \<open>startLoading(key)\<close> made at time \<open>s\<close>. Right after the call no removal is
  pending for the key (a removal scheduled by an earlier stop has been cancelled). As long
  as the events that follow happen before \<open>s\<close> plus the minimum duration of 300 ms, the
  key is in the busy set, whatever these events are: calls of \<open>stopLoading\<close> for the key,
  immediately or later, further starts, timeouts that come due, the unmounting of the
  provider. And at any moment of
  the run a removal that is pending for the key is due no earlier than the minimum
  duration after the start time on record for it.
\<close>

theorem busy_key_minimum_duration:
  "clock_monotone (es1 @ (s, StartLoading k) # es2) \<longrightarrow>
     (\<forall>h due. timers (ui_run (es1 @ [(s, StartLoading k)]) ui_init) h \<noteq> Some (k, due))
     \<and> ((\<forall>ev \<in> set es2. fst ev < s + MIN_LOADING_DURATION_MS) \<longrightarrow>
          k \<in> set (busyKeys (ui_run (es1 @ (s, StartLoading k) # es2) ui_init)))
     \<and> (\<forall>h due s'.
           timers (ui_run (es1 @ (s, StartLoading k) # es2) ui_init) h = Some (k, due)
           \<and> loadingStartTimes (ui_run (es1 @ (s, StartLoading k) # es2) ui_init) k = Some s'
           \<longrightarrow> s' + MIN_LOADING_DURATION_MS \<le> due)"
proof
  assume "clock_monotone (es1 @ (s, StartLoading k) # es2)"
  then have sorted: "sorted (map fst (es1 @ (s, StartLoading k) # es2))"
    by (simp add: clock_monotone_def)
  note sp = sorted_split[OF sorted]
  let ?u0 = "ui_run es1 ui_init"
  let ?u1 = "startLoading s k ?u0"
  have inv0: "ui_inv s ?u0" by (rule inv_before[OF sp(1,2)])
  have inv1: "ui_inv s ?u1" by (rule inv_startLoading[OF inv0]) simp
  have run1: "ui_run (es1 @ [(s, StartLoading k)]) ui_init = ?u1"
    by (simp add: ui_run_append ui_run_Cons ui_run_def)
  have run2: "ui_run (es1 @ (s, StartLoading k) # es2) ui_init = ui_run es2 ?u1"
    by (simp add: ui_run_append ui_run_Cons)
  have a: "\<forall>h due. timers (ui_run (es1 @ [(s, StartLoading k)]) ui_init) h \<noteq> Some (k, due)"
    unfolding run1 by (rule no_timer_after_start[OF inv0])
  have b: "k \<in> set (busyKeys (ui_run (es1 @ (s, StartLoading k) # es2) ui_init))"
    if w: "\<forall>ev \<in> set es2. fst ev < s + MIN_LOADING_DURATION_MS"
  proof -
    have "busy_since s k (ui_run es2 ?u1)"
      using busy_since_run[OF inv1 busy_since_startLoading sp(3)] sp(4) w by simp
    then show ?thesis unfolding run2 by (simp add: busy_since_def)
  qed
  have c: "s' + MIN_LOADING_DURATION_MS \<le> due"
    if t: "timers (ui_run (es1 @ (s, StartLoading k) # es2) ui_init) h = Some (k, due)"
      "loadingStartTimes (ui_run (es1 @ (s, StartLoading k) # es2) ui_init) k = Some s'"
    for h due s'
  proof -
    define T' where "T' = Max (insert s (fst ` set es2))"
    have fin: "finite (insert s (fst ` set es2))" by simp
    have up: "\<forall>ev \<in> set es2. fst ev \<le> T'" "s \<le> T'"
      unfolding T'_def using fin by (auto intro: Max_ge)
    have "ui_inv T' (ui_run es2 ?u1)"
      using inv_ui_run_from[OF inv1 sp(3), of T'] sp(4) up by simp
    with t show ?thesis unfolding run2 by (auto simp: ui_inv_def)
  qed
  from a b c show
    "(\<forall>h due. timers (ui_run (es1 @ [(s, StartLoading k)]) ui_init) h \<noteq> Some (k, due))
     \<and> ((\<forall>ev \<in> set es2. fst ev < s + MIN_LOADING_DURATION_MS) \<longrightarrow>
          k \<in> set (busyKeys (ui_run (es1 @ (s, StartLoading k) # es2) ui_init)))
     \<and> (\<forall>h due s'.
           timers (ui_run (es1 @ (s, StartLoading k) # es2) ui_init) h = Some (k, due)
           \<and> loadingStartTimes (ui_run (es1 @ (s, StartLoading k) # es2) ui_init) k = Some s'
           \<longrightarrow> s' + MIN_LOADING_DURATION_MS \<le> due)"
    by blast
qed

lemmas ui_eval =
  ui_run_def ui_init_def startLoading_def stopLoading_def timerFires_def doStop_def
  clearTimeout_def addLoadingKey_def removeLoadingKey_def MIN_LOADING_DURATION_MS_def
  clock_monotone_def

text \<open>
  Start and immediate stop at time 1000: the key is still busy when the events up to
  time 1299 have happened, its removal is pending for time 1300, and it is removed when
  that timeout comes due. A start at 1020 after a stop at 1010 cancels the removal
  scheduled by that stop (handle 1).
\<close>

theorem busy_key_minimum_duration_witness:
  "clock_monotone ([] @ (1000, StartLoading ''initBoards'')
      # [(1000, StopLoading ''initBoards''), (1299, TimerFires 1)])
   \<and> ''initBoards'' \<in> set (busyKeys (ui_run ([] @ (1000, StartLoading ''initBoards'')
      # [(1000, StopLoading ''initBoards''), (1299, TimerFires 1)]) ui_init))
   \<and> timers (ui_run [(1000, StartLoading ''initBoards''), (1000, StopLoading ''initBoards'')]
        ui_init) 1 = Some (''initBoards'', 1300)
   \<and> busyKeys (ui_run [(1000, StartLoading ''initBoards''), (1000, StopLoading ''initBoards''),
        (1300, TimerFires 1)] ui_init) = []
   \<and> timers (ui_run [(1000, StartLoading ''initBoards''), (1010, StopLoading ''initBoards''),
        (1020, StartLoading ''initBoards'')] ui_init) 1 = None
   \<and> busyKeys (ui_run [(1000, StartLoading ''initBoards''), (1010, StopLoading ''initBoards''),
        (1020, StartLoading ''initBoards''), (1300, TimerFires 1)] ui_init) = [''initBoards'']"
proof -
  have m: "clock_monotone ([] @ (1000, StartLoading ''initBoards'')
      # [(1000, StopLoading ''initBoards''), (1299, TimerFires 1)])"
    by (simp add: clock_monotone_def)
  have w: "\<forall>ev \<in> set [(1000, StopLoading ''initBoards''), (1299, TimerFires 1)].
      fst ev < 1000 + MIN_LOADING_DURATION_MS"
    by (simp add: MIN_LOADING_DURATION_MS_def)
  from busy_key_minimum_duration[of "[]" 1000 "''initBoards''"
      "[(1000, StopLoading ''initBoards''), (1299, TimerFires 1)]"] m w
  have busy: "''initBoards'' \<in> set (busyKeys (ui_run ([] @ (1000, StartLoading ''initBoards'')
      # [(1000, StopLoading ''initBoards''), (1299, TimerFires 1)]) ui_init))"
    by blast
  have rest: "timers (ui_run [(1000, StartLoading ''initBoards''),
        (1000, StopLoading ''initBoards'')] ui_init) 1 = Some (''initBoards'', 1300)"
    "busyKeys (ui_run [(1000, StartLoading ''initBoards''), (1000, StopLoading ''initBoards''),
        (1300, TimerFires 1)] ui_init) = []"
    "timers (ui_run [(1000, StartLoading ''initBoards''), (1010, StopLoading ''initBoards''),
        (1020, StartLoading ''initBoards'')] ui_init) 1 = None"
    "busyKeys (ui_run [(1000, StartLoading ''initBoards''), (1010, StopLoading ''initBoards''),
        (1020, StartLoading ''initBoards''), (1300, TimerFires 1)] ui_init) = [''initBoards'']"
    by (simp_all add: ui_eval)
  from m busy rest show ?thesis by blast
qed

end
